theory Spec2Isabelle
  imports Complex_Main "HOL-Library.AList"
begin

section \<open>The line possibility generator (solver.py, line_possibilities)\<close>

text \<open>
  A line is a tuple of cells, 0 for empty and 1 for filled; a clue sequence is a tuple of
  Python integers, of any sign. The length of a line is a count of cells (every caller
  passes \<open>len(...)\<close>), a natural number. \<open>[0] * i\<close> and \<open>[1] * k\<close> are \<open>replicate\<close>; a
  negative \<open>k\<close> gives the empty list, as in Python, and \<open>range(n)\<close> of a negative \<open>n\<close> is
  empty. The parameter \<open>length\<close> of the source is written \<open>len\<close>, since \<open>length\<close> is the
  length of a list in HOL. The cache of \<open>lru_cache\<close> returns what the function computes
  and is left out.
\<close>

type_synonym line = "int list"
type_synonym clues = "int list"

text \<open>
  The last step of \<open>build\<close>, when every clue has been placed: the accumulator is kept when
  it is not longer than the line (the cells beyond the line, \<open>acc[length:]\<close>, are checked to
  be empty), and is padded with empty cells up to the length of the line.
\<close>

definition finish :: "nat \<Rightarrow> line \<Rightarrow> line list" where
  "finish len acc =
     (if length acc \<le> len \<and> list_all (\<lambda>v. v = 0) (drop len acc)
      then [if length acc \<ge> len then take len acc
            else acc @ replicate (len - length acc) 0]
      else [])"

text \<open>
  The inner function \<open>build(pos, clue_index, acc)\<close>. It appends to the list \<open>results\<close> of
  the enclosing call; the model returns the tuples it appends, in the order in which it
  appends them. A \<open>clue_index\<close> beyond the clues is never reached from \<open>build(0, 0, [])\<close>
  (Python would raise IndexError at \<open>clues[clue_index]\<close>); the model gives no tuple there.
\<close>

function build :: "nat \<Rightarrow> clues \<Rightarrow> nat \<Rightarrow> nat \<Rightarrow> line \<Rightarrow> line list" where
  "build len clues pos clue_index acc =
     (if clue_index = length clues then finish len acc
      else if length clues < clue_index then []
      else
        let k = clues ! clue_index;
            remaining_space = int len - int (length acc);
            remaining_blocks = sum_list (drop clue_index clues);
            min_spaces = int (length clues) - int clue_index - 1;
            max_pos = remaining_space - (remaining_blocks + min_spaces)
        in concat (map (\<lambda>i.
             let new_acc = acc @ replicate i 0 @ replicate (nat k) 1;
                 new_acc = (if int clue_index < int (length clues) - 1
                            then new_acc @ [0] else new_acc)
             in build len clues (length new_acc) (clue_index + 1) new_acc)
             [0 ..< nat (max_pos + 1)]))"
  by pat_completeness auto
termination
  by (relation "measure (\<lambda>(len, clues, pos, clue_index, acc). length clues - clue_index)")
     auto

definition line_possibilities :: "nat \<Rightarrow> clues \<Rightarrow> line list" where
  "line_possibilities len clues =
     (if clues = [] then [replicate len 0]
      else
        let total_blocks = sum_list clues;
            min_required = total_blocks + (int (length clues) - 1)
        in if min_required > int len then [] else build len clues 0 0 [])"

section \<open>The solver (solver.py, NonogramSolver)\<close>

text \<open>
  The object \<open>self\<close> is a record with the fields \<open>__init__\<close> sets. A cell of the board is
  \<open>None\<close> (unknown), \<open>Some 0\<close> (empty) or \<open>Some 1\<close> (filled). \<open>sorted\<close> is stable, as
  \<open>sort_key\<close> is. The readings of \<open>time.time()\<close> are the values \<open>clock 0\<close>, \<open>clock 1\<close>, ... of
  a function the environment gives; the state carried through a call is the solver together
  with the number of readings made so far, so a property that holds for every \<open>clock\<close> holds
  whatever the clock does. The printing under \<open>debug\<close> has no effect on the state and is
  left out. The indices the search uses are within range for a solver that \<open>__init__\<close> built
  (lemmas \<open>solver_of_wf\<close> and \<open>solver_of_shaped\<close> below).
\<close>

type_synonym cell = "int option"

record solver =
  R :: nat
  C :: nat
  row_clues :: "clues list"
  col_clues :: "clues list"
  row_poss :: "line list list"
  col_poss :: "line list list"
  board :: "cell list list"
  row_order :: "nat list"
  start_time :: "real option"
  nodes :: nat

definition init :: "clues list \<Rightarrow> clues list \<Rightarrow> solver" where
  "init rcs ccs =
     (let r = length rcs; c = length ccs;
          rp = map (line_possibilities c) rcs;
          cp = map (line_possibilities r) ccs
      in \<lparr>R = r, C = c, row_clues = rcs, col_clues = ccs, row_poss = rp, col_poss = cp,
          board = replicate r (replicate c None),
          row_order = sort_key (\<lambda>r. length (rp ! r)) [0 ..< r],
          start_time = None, nodes = 0\<rparr>)"

text \<open>
  The two compatibility loops return False at the first known cell that differs from the
  candidate, and True when there is none.
\<close>

definition is_consistent_with_partial_row :: "solver \<Rightarrow> nat \<Rightarrow> line \<Rightarrow> bool" where
  "is_consistent_with_partial_row s r candidate =
     list_all (\<lambda>c. case board s ! r ! c of None \<Rightarrow> True | Some val \<Rightarrow> val = candidate ! c)
       [0 ..< C s]"

definition col_candidate_compatible_with_partial_col :: "solver \<Rightarrow> nat \<Rightarrow> line \<Rightarrow> bool" where
  "col_candidate_compatible_with_partial_col s c col_candidate =
     list_all (\<lambda>rr. case board s ! rr ! c of None \<Rightarrow> True | Some b \<Rightarrow> b = col_candidate ! rr)
       [0 ..< R s]"

text \<open>
  The flag \<open>ok\<close> of \<open>backtrack\<close>: every column has at least one possibility compatible with
  the board. \<open>col_poss_lists\<close> is a copy of \<open>self.col_poss\<close> that nothing modifies.
\<close>

definition columns_ok :: "solver \<Rightarrow> bool" where
  "columns_ok s =
     list_all (\<lambda>c. list_ex (col_candidate_compatible_with_partial_col s c) (col_poss s ! c))
       [0 ..< C s]"

text \<open>
  The loops \<open>for c in range(self.C): self.board[r][c] = ...\<close> that write a candidate into
  row \<open>r\<close> and that write \<open>old_row\<close> back.
\<close>

definition apply_candidate :: "solver \<Rightarrow> nat \<Rightarrow> line \<Rightarrow> solver" where
  "apply_candidate s r candidate =
     s\<lparr>board := (board s)[r := map (\<lambda>c. Some (candidate ! c)) [0 ..< C s]
                                 @ drop (C s) (board s ! r)]\<rparr>"

definition undo_row :: "solver \<Rightarrow> nat \<Rightarrow> cell list \<Rightarrow> solver" where
  "undo_row s r old_row =
     s\<lparr>board := (board s)[r := map (\<lambda>c. old_row ! c) [0 ..< C s]
                                 @ drop (C s) (board s ! r)]\<rparr>"

text \<open>
  The test \<open>time_limit and (time.time() - self.start_time) > time_limit\<close>: a limit of
  \<open>None\<close> or 0 is false and the clock is not read; otherwise the clock is read once. The
  result is \<open>None\<close> when \<open>self.start_time\<close> is \<open>None\<close> (Python raises TypeError; \<open>solve\<close> sets
  it before the search).
\<close>

definition timed_out :: "(nat \<Rightarrow> real) \<Rightarrow> real option \<Rightarrow> solver \<Rightarrow> nat \<Rightarrow> (bool \<times> nat) option" where
  "timed_out clock time_limit s t =
     (case time_limit of
        None \<Rightarrow> Some (False, t)
      | Some budget \<Rightarrow>
          if budget = 0 then Some (False, t)
          else (case start_time s of
                  None \<Rightarrow> None
                | Some t0 \<Rightarrow> Some (clock t - t0 > budget, Suc t)))"

text \<open>
  The inner function \<open>backtrack(idx)\<close>, and its loop over the candidates as the function
  \<open>try_candidates\<close>, which returns what \<open>backtrack\<close> returns from inside or after the loop.
  The result is \<open>None\<close> when Python raises: at \<open>self.row_order[idx]\<close> for an index beyond
  the rows, which \<open>solve\<close> never reaches. The recursion of \<open>try_candidates\<close> goes on from the
  state the recursive call of \<open>backtrack\<close> returned, so termination needs that this call
  leaves \<open>row_order\<close> as it was (lemma \<open>dom_row_order\<close>).
\<close>

function backtrack ::
    "(nat \<Rightarrow> real) \<Rightarrow> real option \<Rightarrow> nat \<Rightarrow> solver \<times> nat \<Rightarrow> (bool \<times> solver \<times> nat) option"
  and try_candidates ::
    "(nat \<Rightarrow> real) \<Rightarrow> real option \<Rightarrow> nat \<Rightarrow> nat \<Rightarrow> line list \<Rightarrow> solver \<times> nat
       \<Rightarrow> (bool \<times> solver \<times> nat) option"
where
  "backtrack clock time_limit idx (s, t) =
     (case timed_out clock time_limit s t of
        None \<Rightarrow> None
      | Some (True, t') \<Rightarrow> Some (False, s, t')
      | Some (False, t') \<Rightarrow>
          if idx = length (row_order s) then Some (True, s, t')
          else if length (row_order s) < idx then None
          else
            let s1 = s\<lparr>nodes := nodes s + 1\<rparr>;
                r = row_order s1 ! idx;
                candidates = filter (is_consistent_with_partial_row s1 r) (row_poss s1 ! r)
            in if candidates = [] then Some (False, s1, t')
               else try_candidates clock time_limit idx r candidates (s1, t'))"
| "try_candidates clock time_limit idx r [] (s, t) = Some (False, s, t)"
| "try_candidates clock time_limit idx r (candidate # rest) (s, t) =
     (let old_row = board s ! r;
          s1 = apply_candidate s r candidate
      in if columns_ok s1
         then (case backtrack clock time_limit (idx + 1) (s1, t) of
                 None \<Rightarrow> None
               | Some (True, s2, t2) \<Rightarrow> Some (True, s2, t2)
               | Some (False, s2, t2) \<Rightarrow>
                   try_candidates clock time_limit idx r rest (undo_row s2 r old_row, t2))
         else try_candidates clock time_limit idx r rest (undo_row s1 r old_row, t))"
  by pat_completeness auto

text \<open>
  Termination: neither writing a row nor a recursive call changes \<open>row_order\<close>, so the
  number of rows still to assign decreases with every call of \<open>backtrack\<close>, and the number
  of candidates still to try with every turn of the loop.
\<close>

lemma row_order_apply_candidate: "row_order (apply_candidate s r c) = row_order s"
  by (simp add: apply_candidate_def)

lemma row_order_undo_row: "row_order (undo_row s r old) = row_order s"
  by (simp add: undo_row_def)

lemma dom_row_order:
  "backtrack_try_candidates_dom (Inl (clock, time_limit, idx, s, t)) \<Longrightarrow>
     backtrack clock time_limit idx (s, t) = Some (b, s', t') \<Longrightarrow> row_order s' = row_order s"
  "backtrack_try_candidates_dom (Inr (clock, time_limit, idx, r, cands, s, t)) \<Longrightarrow>
     try_candidates clock time_limit idx r cands (s, t) = Some (b, s', t') \<Longrightarrow>
     row_order s' = row_order s"
proof (induction clock time_limit idx "(s, t)" and clock time_limit idx r cands "(s, t)"
       arbitrary: s t b s' t' and s t b s' t' rule: backtrack_try_candidates.pinduct)
  case (1 clock time_limit idx s t)
  note IH = "1.hyps"(2) [OF _ refl refl _ _ refl refl refl, simplified]
  note ps = backtrack.psimps [OF "1.hyps"(1)]
  show ?case
  proof (cases "timed_out clock time_limit s t")
    case None
    with "1.prems" show ?thesis unfolding ps by simp
  next
    case (Some a)
    obtain x y where a: "a = (x, y)" by (cases a)
    show ?thesis
    proof (cases x)
      case True
      with "1.prems" Some a show ?thesis unfolding ps by simp
    next
      case False
      then have xF: "x = False" by simp
      note to = Some [unfolded a xF]
      show ?thesis
      proof (cases "idx < length (row_order s)")
        case False
        with "1.prems" to show ?thesis unfolding ps by (simp split: if_splits)
      next
        case True
        let ?s1 = "s\<lparr>nodes := Suc (nodes s)\<rparr>"
        let ?cs = "filter (is_consistent_with_partial_row ?s1 (row_order s ! idx))
                     (row_poss s ! (row_order s ! idx))"
        show ?thesis
        proof (cases "?cs = []")
          case True
          with "1.prems" to \<open>idx < length (row_order s)\<close> show ?thesis
            unfolding ps by (auto simp: Let_def)
        next
          case False
          with "1.prems" to \<open>idx < length (row_order s)\<close>
          have "try_candidates clock time_limit idx (row_order s ! idx) ?cs (?s1, y)
                  = Some (b, s', t')"
            unfolding ps by (simp add: Let_def)
          with IH [OF to _ _ False] True show ?thesis by simp
        qed
      qed
    qed
  qed
next
  case (2 clock time_limit idx r s t)
  then show ?case by (simp add: try_candidates.psimps)
next
  case (3 clock time_limit idx r candidate rest s t)
  let ?s1 = "apply_candidate s r candidate"
  note ps = try_candidates.psimps(2) [OF "3.hyps"(1)]
  have ro1: "row_order ?s1 = row_order s" by (simp add: apply_candidate_def)
  have ro2: "row_order (undo_row x r y) = row_order x" for x y by (simp add: undo_row_def)
  note IH1 = "3.hyps"(2) [OF refl refl, unfolded ro1]
  note IH2 = "3.hyps"(3) [OF refl refl _ _ refl _ refl, unfolded ro2]
  note IH3 = "3.hyps"(4) [OF refl refl, unfolded ro2 ro1]
  show ?case
  proof (cases "columns_ok ?s1")
    case False
    with "3.prems" have "try_candidates clock time_limit idx r rest
        (undo_row ?s1 r (board s ! r), t) = Some (b, s', t')"
      unfolding ps by (simp add: Let_def)
    with IH3 [OF False] show ?thesis by simp
  next
    case True
    show ?thesis
    proof (cases "backtrack clock time_limit (idx + 1) (?s1, t)")
      case None
      with "3.prems" True show ?thesis unfolding ps by (simp add: Let_def)
    next
      case (Some a)
      obtain x s2 t2 where a: "a = (x, s2, t2)" by (cases a)
      note bt = Some [unfolded a]
      show ?thesis
      proof (cases x)
        case True
        with "3.prems" \<open>columns_ok ?s1\<close> bt have "s' = s2" unfolding ps by (simp add: Let_def)
        with IH1 [OF \<open>columns_ok ?s1\<close> bt] show ?thesis by simp
      next
        case False
        then have xF: "x = False" by simp
        from "3.prems" \<open>columns_ok ?s1\<close> bt xF
        have "try_candidates clock time_limit idx r rest
                (undo_row s2 r (board s ! r), t2) = Some (b, s', t')"
          unfolding ps by (simp add: Let_def)
        from IH2 [OF \<open>columns_ok ?s1\<close> bt [unfolded xF] refl this]
             IH1 [OF \<open>columns_ok ?s1\<close> bt]
        show ?thesis by simp
      qed
    qed
  qed
qed

termination backtrack
  apply (relation "measures
     [\<lambda>x. case x of
             Inl (clock, time_limit, idx, s, t) \<Rightarrow> 2 * (length (row_order s) + 1 - idx)
           | Inr (clock, time_limit, idx, r, cands, s, t) \<Rightarrow> 2 * (length (row_order s) - idx) + 1,
      \<lambda>x. case x of
             Inl _ \<Rightarrow> 0
           | Inr (clock, time_limit, idx, r, cands, s, t) \<Rightarrow> length cands]")
       apply (auto simp: row_order_apply_candidate row_order_undo_row dest: dom_row_order(1))
  done

text \<open>
  The method \<open>solve(time_limit, allow_partial, debug)\<close>: it reads the clock into
  \<open>start_time\<close>, resets the node counter, makes the static check when \<open>allow_partial\<close> is
  false, and searches from index 0.
\<close>

definition solve ::
    "(nat \<Rightarrow> real) \<Rightarrow> real option \<Rightarrow> bool \<Rightarrow> solver \<times> nat \<Rightarrow> (bool \<times> solver \<times> nat) option" where
  "solve clock time_limit allow_partial st =
     (case st of (s, t) \<Rightarrow>
        let s = s\<lparr>start_time := Some (clock t), nodes := 0\<rparr>;
            t = Suc t
        in if \<not> allow_partial \<and> list_ex (\<lambda>poss. poss = []) (row_poss s) then Some (False, s, t)
           else if \<not> allow_partial \<and> list_ex (\<lambda>poss. poss = []) (col_poss s) then Some (False, s, t)
           else backtrack clock time_limit 0 (s, t))"

section \<open>The clue parsers (solver.py, parse_clue_line; cret_lvl_gui.py, parse_clue_text)\<close>

text \<open>
  Strings are lists of characters with code points below 256. \<open>py_strip\<close>, \<open>py_split\<close>,
  \<open>py_split_on\<close>, \<open>py_replace\<close> and \<open>py_int\<close> are Python's \<open>str.strip()\<close>, \<open>str.split()\<close>,
  \<open>str.split(sep)\<close>, \<open>str.replace(old, new)\<close> for single characters and \<open>int(str)\<close>:
  whitespace is what \<open>str.isspace\<close> accepts, and an integer literal is an optional sign and
  decimal digits, single underscores allowed between digits, whitespace allowed around it.
  A parser's result is \<open>None\<close> when \<open>int\<close> raises ValueError: \<open>parse_clue_line\<close> lets the
  exception through, \<open>parse_clue_text\<close> catches it and returns \<open>None\<close>.
\<close>

text \<open>
  The code points below 256 for which \<open>str.isspace\<close> is true.
\<close>

definition py_space :: "char \<Rightarrow> bool" where
  "py_space c \<longleftrightarrow> of_char c \<in> set [9, 10, 11, 12, 13, 28, 29, 30, 31, 32, 133, 160 :: nat]"

definition py_strip :: "string \<Rightarrow> string" where
  "py_strip s = rev (dropWhile py_space (rev (dropWhile py_space s)))"

text \<open>
  \<open>str.split()\<close> without an argument: the words between runs of whitespace, none of them
  empty; \<open>cur\<close> is the word being read.
\<close>

fun py_split_aux :: "string \<Rightarrow> string \<Rightarrow> string list" where
  "py_split_aux cur [] = (if cur = [] then [] else [cur])"
| "py_split_aux cur (c # cs) =
     (if py_space c then (if cur = [] then [] else [cur]) @ py_split_aux [] cs
      else py_split_aux (cur @ [c]) cs)"

definition py_split :: "string \<Rightarrow> string list" where
  "py_split s = py_split_aux [] s"

text \<open>
  \<open>str.split(sep)\<close>: the parts between the occurrences of \<open>sep\<close>, empty parts included.
\<close>

fun py_split_on :: "char \<Rightarrow> string \<Rightarrow> string list" where
  "py_split_on sep [] = [[]]"
| "py_split_on sep (c # cs) =
     (if c = sep then [] # py_split_on sep cs
      else (case py_split_on sep cs of
              [] \<Rightarrow> [[c]]
            | p # ps \<Rightarrow> (c # p) # ps))"

definition py_replace :: "char \<Rightarrow> char \<Rightarrow> string \<Rightarrow> string" where
  "py_replace old new s = map (\<lambda>c. if c = old then new else c) s"

definition is_digit :: "char \<Rightarrow> bool" where
  "is_digit c \<longleftrightarrow> 48 \<le> (of_char c :: nat) \<and> (of_char c :: nat) \<le> 57"

definition digit_val :: "char \<Rightarrow> nat" where
  "digit_val c = of_char c - 48"

text \<open>
  \<open>int(str)\<close>: the digits after the first one, a single underscore allowed before a digit;
  \<open>acc\<close> is the value read so far.
\<close>

fun digits_from :: "nat \<Rightarrow> string \<Rightarrow> nat option" where
  "digits_from acc [] = Some acc"
| "digits_from acc [c] = (if is_digit c then Some (acc * 10 + digit_val c) else None)"
| "digits_from acc (c # d # ds) =
     (if is_digit c then digits_from (acc * 10 + digit_val c) (d # ds)
      else if c = CHR ''_'' \<and> is_digit d then digits_from (acc * 10 + digit_val d) ds
      else None)"

definition parse_digits :: "string \<Rightarrow> nat option" where
  "parse_digits s =
     (case s of
        [] \<Rightarrow> None
      | c # cs \<Rightarrow> if is_digit c then digits_from (digit_val c) cs else None)"

definition py_int :: "string \<Rightarrow> int option" where
  "py_int s =
     (case py_strip s of
        [] \<Rightarrow> None
      | c # cs \<Rightarrow>
          if c = CHR ''+'' then map_option int (parse_digits cs)
          else if c = CHR ''-'' then map_option (\<lambda>n. - int n) (parse_digits cs)
          else map_option int (parse_digits (c # cs)))"

text \<open>
  The comprehension \<open>[int(p) for p in parts]\<close>: the first part that is no integer literal
  raises ValueError.
\<close>

fun ints_of :: "string list \<Rightarrow> int list option" where
  "ints_of [] = Some []"
| "ints_of (p # ps) =
     (case py_int p of
        None \<Rightarrow> None
      | Some n \<Rightarrow> (case ints_of ps of None \<Rightarrow> None | Some ns \<Rightarrow> Some (n # ns)))"

definition parse_clue_line :: "string \<Rightarrow> int list option" where
  "parse_clue_line line =
     (let line = py_strip line
      in if line = [] then Some []
         else let parts = filter (\<lambda>p. p \<noteq> []) (py_split (py_replace CHR '','' CHR '' '' line))
              in ints_of parts)"

definition parse_clue_text :: "string \<Rightarrow> int list option" where
  "parse_clue_text text =
     (let text = py_strip text
      in if text = [] then Some []
         else let parts = map py_strip (filter (\<lambda>p. py_strip p \<noteq> []) (py_split_on CHR '','' text))
              in ints_of parts)"

section \<open>Saving a level (cret_lvl_gui.py, collect_clues and save_level)\<close>

text \<open>
  The levels file is modelled by what reading it gives. It is \<open>Missing\<close> when
  \<open>os.path.exists\<close> is false; \<open>Unreadable\<close> when it exists and \<open>open\<close> for reading raises an
  OSError other than FileNotFoundError (no permission, a directory); \<open>Undecodable\<close> when its
  bytes are no text in the encoding of \<open>open\<close>, so that \<open>json.load\<close> raises UnicodeDecodeError;
  \<open>Invalid\<close> when its text is not JSON (\<open>json.load\<close> raises JSONDecodeError; the empty and
  the cut-off file are such); and \<open>Document d\<close> when it holds the JSON value \<open>d\<close>. The source
  catches JSONDecodeError and FileNotFoundError only: the other two exceptions leave
  \<open>save_level\<close>, as \<open>Inl\<close> of the error.

  A Python dict is an association list; \<open>data[name] = v\<close> replaces the value of a key the
  dict has and adds the key at the end otherwise, as \<open>AList.update\<close> does, and raises
  TypeError when \<open>data\<close> is a JSON value other than an object.

  Writing has three courses, chosen by the parameter of type \<open>write_result\<close>: \<open>WriteOk\<close>, the
  file then holds the document; \<open>OpenFails\<close>, \<open>open\<close> for writing raises and the file is as it
  was; \<open>DumpFails\<close>, \<open>open\<close> has emptied the file and \<open>json.dump\<close> or the closing of the file
  raises, which leaves an empty or cut-off file, \<open>Invalid\<close>. The source catches both
  failures and returns. The Tk variables and entry widgets are the texts they hold; the
  message boxes are not modelled.
\<close>

datatype json =
    JNull
  | JBool bool
  | JNum int
  | JFloat real
  | JString string
  | JArray "json list"
  | JObject "(string \<times> json) list"

datatype levels_file = Missing | Unreadable | Undecodable | Invalid | Document json

datatype py_error = TypeError | OSError | UnicodeDecodeError

datatype write_result = WriteOk | OpenFails | DumpFails

datatype outcome = Skipped | WriteFailed | Written

record gui =
  name_var :: string
  row_entries :: "string list"
  col_entries :: "string list"

text \<open>
  The two loops of \<open>collect_clues\<close> over the entry fields: \<open>None\<close> at the first field that
  \<open>parse_clue_text\<close> rejects. \<open>collect_clues\<close> returns the triple \<open>(None, None, message)\<close>,
  modelled as \<open>Inl message\<close>, or \<open>(rows, cols, None)\<close>, modelled as \<open>Inr (rows, cols)\<close>.
\<close>

fun parse_entries :: "string list \<Rightarrow> int list list option" where
  "parse_entries [] = Some []"
| "parse_entries (e # es) =
     (case parse_clue_text e of
        None \<Rightarrow> None
      | Some parsed \<Rightarrow> (case parse_entries es of None \<Rightarrow> None | Some rest \<Rightarrow> Some (parsed # rest)))"

definition collect_clues :: "gui \<Rightarrow> string + (int list list \<times> int list list)" where
  "collect_clues g =
     (case parse_entries (row_entries g) of
        None \<Rightarrow> Inl ''Invalid row clues: must be comma-separated integers''
      | Some rows \<Rightarrow>
          (case parse_entries (col_entries g) of
             None \<Rightarrow> Inl ''Invalid column clues: must be comma-separated integers''
           | Some cols \<Rightarrow> Inr (rows, cols)))"

definition level :: "int list list \<Rightarrow> int list list \<Rightarrow> json" where
  "level rows cols =
     JObject [(''rows'', JArray (map (\<lambda>r. JArray (map JNum r)) rows)),
              (''cols'', JArray (map (\<lambda>c. JArray (map JNum c)) cols))]"

text \<open>
  \<open>load_levels\<close> is the block that fills \<open>data\<close>: the empty dict when the file is missing or
  not JSON, the value loaded otherwise; an unreadable or undecodable file raises.
\<close>

definition load_levels :: "levels_file \<Rightarrow> py_error + json" where
  "load_levels fs =
     (case fs of
        Missing \<Rightarrow> Inr (JObject [])
      | Unreadable \<Rightarrow> Inl OSError
      | Undecodable \<Rightarrow> Inl UnicodeDecodeError
      | Invalid \<Rightarrow> Inr (JObject [])
      | Document d \<Rightarrow> Inr d)"

text \<open>
  \<open>set_item\<close> is the assignment \<open>data[name] = {'rows': rows, 'cols': cols}\<close>.
\<close>

definition set_item :: "json \<Rightarrow> string \<Rightarrow> json \<Rightarrow> py_error + json" where
  "set_item data name v =
     (case data of
        JObject entries \<Rightarrow> Inr (JObject (AList.update name v entries))
      | _ \<Rightarrow> Inl TypeError)"

text \<open>
  \<open>write_levels\<close> is the block that writes \<open>data\<close>, with the outcome and the file it leaves.
\<close>

definition write_levels :: "write_result \<Rightarrow> levels_file \<Rightarrow> json \<Rightarrow> outcome \<times> levels_file" where
  "write_levels w fs data =
     (case w of
        WriteOk \<Rightarrow> (Written, Document data)
      | OpenFails \<Rightarrow> (WriteFailed, fs)
      | DumpFails \<Rightarrow> (WriteFailed, Invalid))"

text \<open>
  \<open>save_level\<close> returns early, leaving the file alone (\<open>Skipped\<close>), when the name is blank,
  when a clue field is rejected and when there is no row or no column; otherwise it loads
  the document, assigns the level to the name and writes the document back.
\<close>

definition save_level :: "gui \<Rightarrow> write_result \<Rightarrow> levels_file \<Rightarrow> py_error + (outcome \<times> levels_file)" where
  "save_level g w fs =
     (let name = py_strip (name_var g)
      in if name = [] then Inr (Skipped, fs)
         else case collect_clues g of
                Inl err \<Rightarrow> Inr (Skipped, fs)
              | Inr (rows, cols) \<Rightarrow>
                  if length rows = 0 \<or> length cols = 0 then Inr (Skipped, fs)
                  else case load_levels fs of
                         Inl e \<Rightarrow> Inl e
                       | Inr data \<Rightarrow>
                           (case set_item data name (level rows cols) of
                              Inl e \<Rightarrow> Inl e
                            | Inr data \<Rightarrow> Inr (write_levels w fs data)))"

section \<open>Notions the properties are stated with\<close>

text \<open>
  \<open>runs\<close> gives the lengths of the maximal runs of 1s of a line, from left to right.
  \<open>layout gaps c\<close> is the line made of the blocks of the clues \<open>c\<close>, with \<open>gaps ! i\<close> empty
  cells before block \<open>i\<close> and the last gap after the last block. \<open>column\<close> is a column of
  a grid. A grid satisfies the clues when it has one row per row clue, one cell per column
  clue in each row, cells 0 or 1, and the runs of every row and column are its clues.
  \<open>solver_of rcs ccs s\<close> says that \<open>s\<close> is a solver constructed for these clues in which at
  most the board, the start time and the node counter have changed since, the board still
  having one row per row clue and one cell per column clue in each row. The two clocks and
  the form \<open>demo_gui\<close> with the file \<open>demo_file\<close> are the inputs of examples.
\<close>

fun run_lengths :: "nat \<Rightarrow> line \<Rightarrow> nat list" where
  "run_lengths n [] = (if 0 < n then [n] else [])"
| "run_lengths n (x # xs) =
     (if x = 1 then run_lengths (Suc n) xs
      else (if 0 < n then [n] else []) @ run_lengths 0 xs)"

definition runs :: "line \<Rightarrow> nat list" where
  "runs xs = run_lengths 0 xs"

fun layout :: "nat list \<Rightarrow> clues \<Rightarrow> line" where
  "layout (g # gaps) (k # ks) = replicate g 0 @ replicate (nat k) 1 @ layout gaps ks"
| "layout (g # gaps) [] = replicate g 0"
| "layout [] ks = []"

definition column :: "'a list list \<Rightarrow> nat \<Rightarrow> 'a list" where
  "column b c = map (\<lambda>row. row ! c) b"

definition satisfies_clues :: "line list \<Rightarrow> clues list \<Rightarrow> clues list \<Rightarrow> bool" where
  "satisfies_clues g rcs ccs \<longleftrightarrow>
     length g = length rcs \<and>
     list_all (\<lambda>row. length row = length ccs \<and> list_all (\<lambda>v. v = 0 \<or> v = 1) row) g \<and>
     list_all (\<lambda>r. map int (runs (g ! r)) = rcs ! r) [0 ..< length rcs] \<and>
     list_all (\<lambda>c. map int (runs (column g c)) = ccs ! c) [0 ..< length ccs]"

definition solver_of :: "clues list \<Rightarrow> clues list \<Rightarrow> solver \<Rightarrow> bool" where
  "solver_of rcs ccs s \<longleftrightarrow>
     s = (init rcs ccs)\<lparr>board := board s, start_time := start_time s, nodes := nodes s\<rparr> \<and>
     length (board s) = length rcs \<and> list_all (\<lambda>row. length row = length ccs) (board s)"

definition still_clock :: "nat \<Rightarrow> real" where
  "still_clock n = 0"

definition tick_clock :: "nat \<Rightarrow> real" where
  "tick_clock n = real n"

definition entries_of :: "levels_file \<Rightarrow> (string \<times> json) list" where
  "entries_of fs = (case fs of Document (JObject entries) \<Rightarrow> entries | _ \<Rightarrow> [])"



section \<open>Notions the proofs use\<close>

text \<open>
  \<open>next_acc\<close> and \<open>max_pos\<close> name the accumulator and the bound of one step of \<open>build\<close>;
  \<open>same_puzzle\<close> relates two states of a solver that differ in the board and the node counter
  at most; \<open>shaped\<close> says that the board has \<open>R\<close> rows of \<open>C\<close> cells; \<open>solved_from\<close>, \<open>solution\<close> and \<open>agrees\<close> are the invariants of the soundness and
  the completeness of the search; \<open>join\<close> is the inverse of \<open>py_split_on\<close>.
\<close>

definition next_acc :: "clues \<Rightarrow> nat \<Rightarrow> line \<Rightarrow> nat \<Rightarrow> line" where
  "next_acc c ci acc i =
     acc @ replicate i 0 @ replicate (nat (c ! ci)) 1 @ (if Suc ci < length c then [0] else [])"

definition max_pos :: "nat \<Rightarrow> clues \<Rightarrow> nat \<Rightarrow> line \<Rightarrow> int" where
  "max_pos L c ci acc =
     int L - int (length acc) - (sum_list (drop ci c) + (int (length c) - int ci - 1))"

definition same_puzzle :: "solver \<Rightarrow> solver \<Rightarrow> bool" where
  "same_puzzle s s' \<longleftrightarrow>
     R s' = R s \<and> C s' = C s \<and> row_clues s' = row_clues s \<and> col_clues s' = col_clues s \<and>
     row_poss s' = row_poss s \<and> col_poss s' = col_poss s \<and> row_order s' = row_order s \<and>
     start_time s' = start_time s"

definition shaped :: "solver \<Rightarrow> bool" where
  "shaped s \<longleftrightarrow> length (board s) = R s \<and> (\<forall>r<R s. length (board s ! r) = C s)"

definition wf_solver :: "solver \<Rightarrow> bool" where
  "wf_solver s \<longleftrightarrow>
     length (row_poss s) = R s \<and> length (col_poss s) = C s \<and>
     (\<forall>r<R s. \<forall>p\<in>set (row_poss s ! r). length p = C s) \<and>
     (\<forall>c<C s. \<forall>p\<in>set (col_poss s ! c). length p = R s) \<and>
     set (row_order s) = {0 ..< R s} \<and> distinct (row_order s)"

definition solved_from :: "nat \<Rightarrow> solver \<Rightarrow> solver \<Rightarrow> bool" where
  "solved_from idx s s' \<longleftrightarrow>
     same_puzzle s s' \<and> shaped s' \<and>
     (\<forall>j. idx \<le> j \<and> j < length (row_order s) \<longrightarrow>
        (\<exists>p\<in>set (row_poss s ! (row_order s ! j)). board s' ! (row_order s ! j) = map Some p)) \<and>
     (\<forall>r. r \<notin> set (drop idx (row_order s)) \<longrightarrow> board s' ! r = board s ! r) \<and>
     (idx < length (row_order s) \<longrightarrow> columns_ok s')"

definition solution :: "line list \<Rightarrow> solver \<Rightarrow> bool" where
  "solution g s \<longleftrightarrow>
     length g = R s \<and> (\<forall>r<R s. g ! r \<in> set (row_poss s ! r)) \<and>
     (\<forall>c<C s. column g c \<in> set (col_poss s ! c))"

definition agrees :: "line list \<Rightarrow> nat \<Rightarrow> solver \<Rightarrow> bool" where
  "agrees g idx s \<longleftrightarrow>
     (\<forall>j<length (row_order s).
        board s ! (row_order s ! j) =
          (if j < idx then map Some (g ! (row_order s ! j)) else replicate (C s) None))"

fun join :: "char \<Rightarrow> string list \<Rightarrow> string" where
  "join sep [] = []"
| "join sep [p] = p"
| "join sep (p # q # qs) = p @ sep # join sep (q # qs)"

definition flush :: "string \<Rightarrow> string list" where
  "flush cur = (if cur = [] then [] else [cur])"

section \<open>Properties of the generator\<close>

declare build.simps [simp del]

text \<open>
  C5: for the empty clue sequence and every length L, the generator returns exactly one
  possibility, the line of L empty cells.
\<close>

theorem empty_clues_one_possibility:
  "line_possibilities L [] = [replicate L 0]"
  by (simp add: line_possibilities_def)

theorem empty_clues_one_possibility_witness:
  "line_possibilities 3 [] = [[0, 0, 0]]"
  using empty_clues_one_possibility [of 3] by (simp add: numeral_3_eq_3)

text \<open>
  C4: when the blocks and their mandatory gaps do not fit, that is when
  sum(c) + len(c) - 1 > L, the generator returns the empty collection.
\<close>

theorem unsatisfiable_line_no_possibility:
  "sum_list c + int (length c) - 1 > int L \<Longrightarrow> line_possibilities L c = []"
  by (cases "c = []") (auto simp: line_possibilities_def Let_def)

text \<open>
  A line of length 3 with the clue 5, as in the spec's Example 4.
\<close>

theorem unsatisfiable_line_no_possibility_witness:
  "sum_list [5] + int (length [5::int]) - 1 > int 3 \<and> line_possibilities 3 [5] = []"
  using unsatisfiable_line_no_possibility [where c = "[5]" and L = 3] by simp

lemma finish_eq:
  "finish L acc = (if length acc \<le> L then [acc @ replicate (L - length acc) 0] else [])"
  by (auto simp: finish_def)

lemma build_done: "build L c pos (length c) acc = finish L acc"
  by (simp add: build.simps)

text \<open>
  One step of \<open>build\<close>: the results are those of the next clue, for every number \<open>i\<close> of
  empty cells put before the block, up to \<open>max_pos\<close>.
\<close>

lemma build_step:
  "ci < length c \<Longrightarrow>
   build L c pos ci acc =
     concat (map (\<lambda>i. build L c (length (next_acc c ci acc i)) (Suc ci) (next_acc c ci acc i))
                 [0 ..< nat (max_pos L c ci acc + 1)])"
  by (subst build.simps) (simp add: Let_def next_acc_def max_pos_def algebra_simps)

lemma in_build_step:
  "ci < length c \<Longrightarrow>
   p \<in> set (build L c pos ci acc) \<longleftrightarrow>
     (\<exists>i. int i \<le> max_pos L c ci acc \<and>
          p \<in> set (build L c (length (next_acc c ci acc i)) (Suc ci) (next_acc c ci acc i)))"
proof -
  assume ci: "ci < length c"
  have "\<And>i. i < nat (max_pos L c ci acc + 1) \<longleftrightarrow> int i \<le> max_pos L c ci acc"
    by linarith
  then show ?thesis
    by (subst build_step [OF ci]) auto
qed

lemma run_lengths_ones: "run_lengths n (replicate k 1 @ ys) = run_lengths (n + k) ys"
  by (induction k arbitrary: n) auto

lemma run_lengths_zeros: "run_lengths 0 (replicate i 0 @ ys) = run_lengths 0 ys"
  by (induction i) auto

lemma run_lengths_zeros_only: "run_lengths n (replicate j 0) = (if 0 < n then [n] else [])"
proof (cases j)
  case 0
  then show ?thesis by simp
next
  case (Suc j')
  have "run_lengths 0 (replicate j' 0) = []"
    using run_lengths_zeros [of j' "[]"] by simp
  with Suc show ?thesis by simp
qed

lemma run_lengths_pad: "run_lengths n (xs @ replicate j 0) = run_lengths n xs"
  by (induction xs arbitrary: n) (auto simp: run_lengths_zeros_only)

lemma run_lengths_append:
  "xs \<noteq> [] \<Longrightarrow> last xs \<noteq> 1 \<Longrightarrow> run_lengths n (xs @ ys) = run_lengths n xs @ run_lengths 0 ys"
proof (induction xs arbitrary: n)
  case Nil
  then show ?case by simp
next
  case (Cons x xs)
  show ?case
  proof (cases "xs = []")
    case True
    with Cons.prems show ?thesis by simp
  next
    case False
    with Cons.prems have "last xs \<noteq> 1" by simp
    from Cons.IH [OF False this] show ?thesis by simp
  qed
qed

lemma runs_append:
  "xs = [] \<or> last xs \<noteq> 1 \<Longrightarrow> runs (xs @ ys) = runs xs @ runs ys"
  by (cases "xs = []") (auto simp: runs_def run_lengths_append)

lemma runs_block:
  "runs (replicate i 0 @ replicate k 1 @ replicate j 0) = (if 0 < k then [k] else [])"
  by (simp add: runs_def run_lengths_zeros run_lengths_ones run_lengths_zeros_only)

lemma runs_next_acc:
  assumes "ci < length c" "acc = [] \<or> last acc \<noteq> 1"
  shows "runs (next_acc c ci acc i) = runs acc @ (if 0 < c ! ci then [nat (c ! ci)] else [])"
proof -
  have "runs (replicate i 0 @ replicate (nat (c ! ci)) 1 @ (if Suc ci < length c then [0] else []))
        = (if 0 < c ! ci then [nat (c ! ci)] else [])"
    using runs_block [of i "nat (c ! ci)" "if Suc ci < length c then 1 else 0"]
    by (auto split: if_splits)
  then show ?thesis
    using assms(2) by (simp add: next_acc_def runs_append)
qed

text \<open>
  Every result of \<open>build\<close> extends the accumulator by the blocks of the remaining clues: its
  runs are those of the accumulator followed by the remaining clues that are positive.
\<close>

lemma build_runs:
  "p \<in> set (build L c pos ci acc) \<Longrightarrow> ci \<le> length c \<Longrightarrow>
   (ci < length c \<Longrightarrow> acc = [] \<or> last acc \<noteq> 1) \<Longrightarrow>
   runs p = runs acc @ map nat (filter (\<lambda>k. 0 < k) (drop ci c))"
proof (induction "length c - ci" arbitrary: ci acc pos)
  case 0
  then have "ci = length c" by simp
  with "0.prems"(1) show ?case
    by (auto simp: build_done finish_eq runs_def run_lengths_pad split: if_splits)
next
  case (Suc m)
  then have ci: "ci < length c" by simp
  from Suc.prems(1) obtain i where
    p: "p \<in> set (build L c (length (next_acc c ci acc i)) (Suc ci) (next_acc c ci acc i))"
    by (auto simp: in_build_step [OF ci])
  have m: "m = length c - Suc ci" using Suc.hyps(2) by simp
  have lastok: "Suc ci < length c \<Longrightarrow> next_acc c ci acc i = [] \<or> last (next_acc c ci acc i) \<noteq> 1"
    by (simp add: next_acc_def)
  have "runs p = runs (next_acc c ci acc i) @ map nat (filter (\<lambda>k. 0 < k) (drop (Suc ci) c))"
    using Suc.hyps(1) [OF m p _ lastok] ci by simp
  moreover have "drop ci c = c ! ci # drop (Suc ci) c"
    using ci by (simp add: Cons_nth_drop_Suc)
  ultimately show ?case
    using runs_next_acc [OF ci, of acc i] Suc.prems(3) [OF ci] by simp
qed

lemma build_length:
  "p \<in> set (build L c pos ci acc) \<Longrightarrow> ci \<le> length c \<Longrightarrow> length p = L"
proof (induction "length c - ci" arbitrary: ci acc pos)
  case 0
  then show ?case by (auto simp: build_done finish_eq split: if_splits)
next
  case (Suc m)
  then have ci: "ci < length c" by simp
  from Suc.prems(1) obtain i where
    p: "p \<in> set (build L c (length (next_acc c ci acc i)) (Suc ci) (next_acc c ci acc i))"
    by (auto simp: in_build_step [OF ci])
  have m: "m = length c - Suc ci" using Suc.hyps(2) by simp
  show ?case using Suc.hyps(1) [OF m p] ci by simp
qed

lemma build_cells:
  "p \<in> set (build L c pos ci acc) \<Longrightarrow> ci \<le> length c \<Longrightarrow> set acc \<subseteq> {0, 1} \<Longrightarrow>
   set p \<subseteq> {0, 1}"
proof (induction "length c - ci" arbitrary: ci acc pos)
  case 0
  then show ?case by (auto simp: build_done finish_eq split: if_splits)
next
  case (Suc m)
  then have ci: "ci < length c" by simp
  from Suc.prems(1) obtain i where
    p: "p \<in> set (build L c (length (next_acc c ci acc i)) (Suc ci) (next_acc c ci acc i))"
    by (auto simp: in_build_step [OF ci])
  have m: "m = length c - Suc ci" using Suc.hyps(2) by simp
  have "set (next_acc c ci acc i) \<subseteq> {0, 1}"
    using Suc.prems(3) by (auto simp: next_acc_def)
  then show ?case using Suc.hyps(1) [OF m p] ci by simp
qed

lemma line_possibilities_length:
  "p \<in> set (line_possibilities L c) \<Longrightarrow> length p = L"
  by (auto simp: line_possibilities_def Let_def build_length split: if_splits)

lemma line_possibilities_cells:
  "p \<in> set (line_possibilities L c) \<Longrightarrow> set p \<subseteq> {0, 1}"
  using build_cells [of p L c 0 0 "[]"]
  by (auto simp: line_possibilities_def Let_def split: if_splits)

lemma runs_zeros: "runs (replicate n 0) = []"
  using run_lengths_pad [of 0 "[]" n] by (simp add: runs_def)

lemma line_possibilities_runs:
  "p \<in> set (line_possibilities L c) \<Longrightarrow> runs p = map nat (filter (\<lambda>k. 0 < k) c)"
  using build_runs [of p L c 0 0 "[]"]
  by (auto simp: line_possibilities_def Let_def runs_zeros split: if_splits) (simp add: runs_def)

lemma build_prefix:
  "p \<in> set (build L c pos ci acc) \<Longrightarrow> ci \<le> length c \<Longrightarrow> \<exists>q. p = acc @ q"
proof (induction "length c - ci" arbitrary: ci acc pos)
  case 0
  then show ?case by (auto simp: build_done finish_eq split: if_splits)
next
  case (Suc m)
  then have ci: "ci < length c" by simp
  from Suc.prems(1) obtain i where
    p: "p \<in> set (build L c (length (next_acc c ci acc i)) (Suc ci) (next_acc c ci acc i))"
    by (auto simp: in_build_step [OF ci])
  have m: "m = length c - Suc ci" using Suc.hyps(2) by simp
  from Suc.hyps(1) [OF m p] ci obtain q where "p = next_acc c ci acc i @ q" by auto
  then show ?case by (simp add: next_acc_def)
qed

text \<open>
  Two placements of a block of a positive clue differ in the cell where the earlier one
  starts the block; so the results of \<open>build\<close> are pairwise distinct.
\<close>

lemma branches_differ:
  assumes ci: "ci < length c" and k: "0 < c ! ci" and ij: "i < j"
    and p: "p \<in> set (build L c pos (Suc ci) (next_acc c ci acc i))"
    and p': "p' \<in> set (build L c pos' (Suc ci) (next_acc c ci acc j))"
  shows "p \<noteq> p'"
proof -
  from build_prefix [OF p] ci obtain q where q: "p = next_acc c ci acc i @ q" by auto
  from build_prefix [OF p'] ci obtain q' where q': "p' = next_acc c ci acc j @ q'" by auto
  obtain n where n: "nat (c ! ci) = Suc n" using k by (cases "nat (c ! ci)") auto
  have "p ! (length acc + i) = 1"
    using q n by (simp add: next_acc_def nth_append)
  moreover have "p' ! (length acc + i) = 0"
    using q' ij by (simp add: next_acc_def nth_append)
  ultimately show ?thesis by auto
qed

lemma distinct_concat_map:
  "distinct xs \<Longrightarrow> (\<And>x. x \<in> set xs \<Longrightarrow> distinct (f x)) \<Longrightarrow>
   (\<And>x y. x \<in> set xs \<Longrightarrow> y \<in> set xs \<Longrightarrow> x \<noteq> y \<Longrightarrow> set (f x) \<inter> set (f y) = {}) \<Longrightarrow>
   distinct (concat (map f xs))"
  by (induction xs) auto

lemma finish_distinct: "distinct (finish L acc)"
  by (simp add: finish_eq)

lemma build_distinct:
  "ci \<le> length c \<Longrightarrow> \<forall>k\<in>set c. 0 < k \<Longrightarrow> distinct (build L c pos ci acc)"
proof (induction "length c - ci" arbitrary: ci acc pos)
  case 0
  then have "ci = length c" by simp
  then show ?case by (simp add: build_done finish_distinct)
next
  case (Suc m)
  then have ci: "ci < length c" by simp
  have m: "m = length c - Suc ci" using Suc.hyps(2) by simp
  have k: "0 < c ! ci" using ci Suc.prems(2) by simp
  let ?f = "\<lambda>i. build L c (length (next_acc c ci acc i)) (Suc ci) (next_acc c ci acc i)"
  have d: "\<And>i. distinct (?f i)"
    using Suc.hyps(1) [OF m] ci Suc.prems(2) by simp
  have disj: "\<And>i j. i \<noteq> j \<Longrightarrow> set (?f i) \<inter> set (?f j) = {}"
  proof -
    fix i j :: nat
    assume "i \<noteq> j"
    then consider "i < j" | "j < i" by linarith
    then show "set (?f i) \<inter> set (?f j) = {}"
    proof cases
      case 1
      then show ?thesis using branches_differ [OF ci k 1] by blast
    next
      case 2
      then show ?thesis using branches_differ [OF ci k 2] by blast
    qed
  qed
  show ?case
    by (subst build_step [OF ci], rule distinct_concat_map) (use d disj in auto)
qed

lemma line_possibilities_distinct:
  "\<forall>k\<in>set c. 0 < k \<Longrightarrow> distinct (line_possibilities L c)"
  by (simp add: line_possibilities_def Let_def build_distinct)

lemma run_lengths_pos: "n' \<in> set (run_lengths n q) \<Longrightarrow> 0 < n'"
  by (induction q arbitrary: n) (auto split: if_splits)

lemma run_lengths_bound:
  "int (sum_list (run_lengths n q)) + int (length (run_lengths n q)) - 1 \<le> int n + int (length q)"
proof (induction q arbitrary: n)
  case Nil
  then show ?case by simp
next
  case (Cons x q)
  show ?case
    using Cons.IH [of "Suc n"] Cons.IH [of 0] by simp
qed

lemma run_lengths_open: "0 < n \<Longrightarrow> run_lengths n q \<noteq> []"
  by (induction q arbitrary: n) auto

lemma no_runs_zeros:
  "set q \<subseteq> {0, 1} \<Longrightarrow> run_lengths n q = [] \<Longrightarrow> q = replicate (length q) 0"
proof (induction q arbitrary: n)
  case Nil
  then show ?case by simp
next
  case (Cons x q)
  have "x \<noteq> 1"
    using Cons.prems(2) run_lengths_open [of "Suc n" q] by auto
  then have "x = 0" "run_lengths 0 q = []"
    using Cons.prems by auto
  then show ?case
    using Cons.IH [of 0] Cons.prems(1) by simp
qed

lemma split_zeros:
  "\<exists>i q'. q = replicate i 0 @ q' \<and> (q' = [] \<or> hd q' \<noteq> 0)"
proof (induction q)
  case Nil
  then show ?case by simp
next
  case (Cons x q)
  show ?case
  proof (cases "x = 0")
    case True
    from Cons obtain i q' where "q = replicate i 0 @ q'" "q' = [] \<or> hd q' \<noteq> 0" by auto
    then have "x # q = replicate (Suc i) 0 @ q'" using True by simp
    then show ?thesis using \<open>q' = [] \<or> hd q' \<noteq> 0\<close> by blast
  next
    case False
    then have "x # q = replicate 0 0 @ (x # q) \<and> hd (x # q) \<noteq> 0" by simp
    then show ?thesis by blast
  qed
qed

lemma split_ones:
  "\<exists>k q'. q = replicate k 1 @ q' \<and> (q' = [] \<or> hd q' \<noteq> 1)"
proof (induction q)
  case Nil
  then show ?case by simp
next
  case (Cons x q)
  show ?case
  proof (cases "x = 1")
    case True
    from Cons obtain i q' where "q = replicate i 1 @ q'" "q' = [] \<or> hd q' \<noteq> 1" by auto
    then have "x # q = replicate (Suc i) 1 @ q'" using True by simp
    then show ?thesis using \<open>q' = [] \<or> hd q' \<noteq> 1\<close> by blast
  next
    case False
    then have "x # q = replicate 0 1 @ (x # q) \<and> hd (x # q) \<noteq> 1" by simp
    then show ?thesis by blast
  qed
qed

text \<open>
  A line with the runs \<open>n # ns\<close> starts with empty cells, then a block of \<open>n\<close> filled cells,
  and the rest, which is empty or starts with an empty cell, has the runs \<open>ns\<close>.
\<close>

lemma first_run:
  assumes cells: "set q \<subseteq> {0, 1}" and r: "runs q = n # ns"
  shows "\<exists>i rest. q = replicate i 0 @ replicate n 1 @ rest \<and> (rest = [] \<or> hd rest = 0)
           \<and> runs rest = ns"
proof -
  obtain i q1 where q1: "q = replicate i 0 @ q1" "q1 = [] \<or> hd q1 \<noteq> 0"
    using split_zeros by blast
  obtain k q2 where q2: "q1 = replicate k 1 @ q2" "q2 = [] \<or> hd q2 \<noteq> 1"
    using split_ones by blast
  have r1: "run_lengths 0 q1 = n # ns"
    using r q1(1) by (simp add: runs_def run_lengths_zeros)
  then have r2: "run_lengths k q2 = n # ns"
    using q2(1) by (simp add: run_lengths_ones)
  have q2cells: "set q2 \<subseteq> {0, 1}" using cells q1(1) q2(1) by auto
  have kpos: "0 < k"
  proof (rule ccontr)
    assume "\<not> 0 < k"
    then have k0: "k = 0" by simp
    with q2 q1(2) have "q1 = [] \<or> (hd q1 \<noteq> 0 \<and> hd q1 \<noteq> 1)" by auto
    moreover have "q1 \<noteq> []" using r1 by auto
    ultimately have "hd q1 \<notin> {0, 1}" by auto
    moreover have "hd q1 \<in> set q" using \<open>q1 \<noteq> []\<close> q1(1) by auto
    ultimately show False using cells by auto
  qed
  have h0: "q2 = [] \<or> hd q2 = 0"
  proof (cases "q2 = []")
    case True
    then show ?thesis by simp
  next
    case False
    then have "hd q2 \<in> set q2" by simp
    then have "hd q2 \<in> {0, 1}" using q2cells by auto
    then show ?thesis using q2(2) False by auto
  qed
  have "n = k \<and> runs q2 = ns"
  proof (cases q2)
    case Nil
    then show ?thesis using r2 kpos by (simp add: runs_def)
  next
    case (Cons x xs)
    then have "x = 0" using h0 by simp
    then show ?thesis using r2 kpos Cons by (simp add: runs_def)
  qed
  then show ?thesis using q1(1) q2(1) h0 by auto
qed

lemma runs_bound:
  "int (sum_list (runs q)) + int (length (runs q)) - 1 \<le> int (length q)"
  using run_lengths_bound [of 0 q] by (simp add: runs_def)

lemma sum_list_map_int: "sum_list (map int xs) = int (sum_list xs)"
  by (induction xs) auto

text \<open>
  Completeness of \<open>build\<close>: a line of the right length that continues the accumulator with
  runs equal to the remaining clues is among the results.
\<close>

lemma build_complete:
  "ci \<le> length c \<Longrightarrow> set q \<subseteq> {0, 1} \<Longrightarrow> map int (runs q) = drop ci c \<Longrightarrow>
   length acc + length q = L \<Longrightarrow> acc @ q \<in> set (build L c pos ci acc)"
proof (induction "length c - ci" arbitrary: ci acc pos q)
  case 0
  then have ci: "ci = length c" by simp
  with "0.prems" have "runs q = []" by simp
  then have "q = replicate (length q) 0"
    using no_runs_zeros [OF "0.prems"(2)] by (simp add: runs_def)
  moreover have "length q = L - length acc" using "0.prems"(4) by simp
  ultimately have "acc @ q = acc @ replicate (L - length acc) 0" by simp
  then show ?case using ci "0.prems"(4) by (simp add: build_done finish_eq)
next
  case (Suc m)
  then have ci: "ci < length c" by simp
  have m: "m = length c - Suc ci" using Suc.hyps(2) by simp
  have dr: "drop ci c = c ! ci # drop (Suc ci) c"
    using ci by (simp add: Cons_nth_drop_Suc)
  then obtain n ns where r: "runs q = n # ns" "int n = c ! ci" "map int ns = drop (Suc ci) c"
    using Suc.prems(3) by (cases "runs q") auto
  from first_run [OF Suc.prems(2) r(1)] obtain i rest where
    q: "q = replicate i 0 @ replicate n 1 @ rest" "rest = [] \<or> hd rest = 0" "runs rest = ns"
    by blast
  have n: "nat (c ! ci) = n" using r(2) by simp
  define rest' where "rest' = (if Suc ci < length c then tl rest else rest)"
  have rest_ne: "Suc ci < length c \<Longrightarrow> rest \<noteq> []"
  proof
    assume "Suc ci < length c" "rest = []"
    then have "ns = []" "drop (Suc ci) c \<noteq> []" using q(3) by (auto simp: runs_def)
    then show False using r(3) by simp
  qed
  have split: "acc @ q = next_acc c ci acc i @ rest'"
  proof (cases "Suc ci < length c")
    case True
    then obtain xs where "rest = 0 # xs" using rest_ne q(2) by (cases rest) auto
    then show ?thesis using True q(1) n by (simp add: next_acc_def rest'_def)
  next
    case False
    then show ?thesis using q(1) n by (simp add: next_acc_def rest'_def)
  qed
  have runs': "runs rest' = ns"
  proof (cases "Suc ci < length c")
    case True
    then obtain xs where "rest = 0 # xs" using rest_ne q(2) by (cases rest) auto
    then show ?thesis using True q(3) by (simp add: rest'_def runs_def)
  next
    case False
    then show ?thesis using q(3) by (simp add: rest'_def)
  qed
  have cells': "set rest' \<subseteq> {0, 1}"
  proof -
    have "set rest \<subseteq> {0, 1}" using Suc.prems(2) q(1) by auto
    moreover have "set (tl rest) \<subseteq> set rest" by (cases rest) auto
    ultimately show ?thesis by (auto simp: rest'_def)
  qed
  have len': "length (next_acc c ci acc i) + length rest' = L"
    using Suc.prems(4) arg_cong [OF split, of length] by simp
  have "next_acc c ci acc i @ rest'
          \<in> set (build L c (length (next_acc c ci acc i)) (Suc ci) (next_acc c ci acc i))"
    using Suc.hyps(1) [OF m _ cells' _ len'] ci runs' r(3) by simp
  moreover have "int i \<le> max_pos L c ci acc"
  proof -
    have "sum_list (drop ci c) = int (sum_list (runs q))"
      using Suc.prems(3) sum_list_map_int [of "runs q"] by simp
    moreover have "int (length (runs q)) = int (length c) - int ci"
      using arg_cong [OF Suc.prems(3), of length] ci by simp
    moreover have "runs (replicate n 1 @ rest) = runs q"
      using q(1) by (simp add: runs_def run_lengths_zeros)
    moreover have "int (length q) = int i + int (length (replicate n 1 @ rest))"
      using q(1) by simp
    ultimately show ?thesis
      using runs_bound [of "replicate n 1 @ rest"] Suc.prems(4)
      by (simp add: max_pos_def)
  qed
  ultimately show ?case
    using split by (auto simp: in_build_step [OF ci])
qed

lemma line_possibilities_complete:
  assumes "set p \<subseteq> {0, 1}" "map int (runs p) = c"
  shows "p \<in> set (line_possibilities (length p) c)"
proof (cases "c = []")
  case True
  then have "p = replicate (length p) 0"
    using assms no_runs_zeros [of p 0] by (simp add: runs_def)
  then show ?thesis using True by (simp add: line_possibilities_def)
next
  case False
  have "sum_list c = int (sum_list (runs p))"
    using assms(2) sum_list_map_int [of "runs p"] by simp
  moreover have "int (length c) = int (length (runs p))"
    using assms(2) by auto
  ultimately have "sum_list c + (int (length c) - 1) \<le> int (length p)"
    using runs_bound [of p] by simp
  moreover have "[] @ p \<in> set (build (length p) c 0 0 [])"
    by (rule build_complete) (use assms in auto)
  ultimately show ?thesis using False by (simp add: line_possibilities_def Let_def)
qed

lemma runs_layout:
  "set p \<subseteq> {0, 1} \<Longrightarrow> runs p = ns \<Longrightarrow>
   \<exists>gaps. length gaps = length ns + 1 \<and> (\<forall>i. 0 < i \<and> i < length ns \<longrightarrow> 0 < gaps ! i) \<and>
          p = layout gaps (map int ns)"
proof (induction ns arbitrary: p)
  case Nil
  then have "p = replicate (length p) 0" using no_runs_zeros [of p 0] by (simp add: runs_def)
  then have "p = layout [length p] (map int [])" by simp
  then show ?case by (intro exI [of _ "[length p]"]) simp
next
  case (Cons n ns)
  from first_run [OF Cons.prems] obtain i rest where
    p: "p = replicate i 0 @ replicate n 1 @ rest" "rest = [] \<or> hd rest = 0" "runs rest = ns"
    by blast
  have "set rest \<subseteq> {0, 1}" using Cons.prems(1) p(1) by auto
  from Cons.IH [OF this p(3)] obtain gaps where
    g: "length gaps = length ns + 1" "\<forall>i. 0 < i \<and> i < length ns \<longrightarrow> 0 < gaps ! i"
       "rest = layout gaps (map int ns)"
    by blast
  obtain g0 gs where gaps: "gaps = g0 # gs" using g(1) by (cases gaps) auto
  have first: "0 < g0" if ne: "ns \<noteq> []"
  proof (rule ccontr)
    assume "\<not> 0 < g0"
    then have g0: "g0 = 0" by simp
    obtain m ms where ns: "ns = m # ms" using ne by (cases ns) auto
    have "0 < m" using p(3) ns run_lengths_pos [of m 0 rest] by (simp add: runs_def)
    then obtain m' where m: "m = Suc m'" by (cases m) auto
    have "rest = replicate m 1 @ layout gs (map int ms)"
      using g(3) gaps ns g0 by simp
    then have "rest \<noteq> []" "hd rest = 1" using m by simp_all
    with p(2) show False by simp
  qed
  have inner: "0 < (i # gaps) ! j" if "0 < j" "j < length (n # ns)" for j
  proof (cases j)
    case 0
    with that show ?thesis by simp
  next
    case (Suc j')
    show ?thesis
    proof (cases j')
      case 0
      have "ns \<noteq> []" using that Suc 0 by auto
      then show ?thesis using first Suc 0 gaps by simp
    next
      case (Suc j'')
      then have "0 < j'" "j' < length ns" using that \<open>j = Suc j'\<close> by auto
      then show ?thesis using g(2) \<open>j = Suc j'\<close> by simp
    qed
  qed
  have "p = layout (i # gaps) (map int (n # ns))"
    using p(1) g(3) gaps by simp
  moreover have "length (i # gaps) = length (n # ns) + 1" using g(1) by simp
  ultimately show ?case using inner by blast
qed

text \<open>
  C3, amended: for every clue sequence c of positive integers and every length L with
  sum(c) + len(c) - 1 <= L, every element of line_possibilities(L, c) has length L, has
  cells 0 or 1 only, and its maximal runs of 1s have the lengths c, in order; it is made of
  the blocks of c in order, with a gap of empty cells before, between and after them, and
  every gap between two blocks has at least one cell.
\<close>

theorem possibilities_match_clues:
  assumes "\<forall>k\<in>set c. 0 < k" "sum_list c + int (length c) - 1 \<le> int L"
    "p \<in> set (line_possibilities L c)"
  shows "length p = L \<and> set p \<subseteq> {0, 1} \<and> map int (runs p) = c \<and>
         (\<exists>gaps. length gaps = length c + 1 \<and> (\<forall>i. 0 < i \<and> i < length c \<longrightarrow> 0 < gaps ! i) \<and>
                 p = layout gaps c)"
proof -
  have "filter (\<lambda>k. 0 < k) c = c" using assms(1) by (simp add: filter_id_conv)
  then have "runs p = map nat c" using line_possibilities_runs [OF assms(3)] by simp
  moreover have "map int (map nat c) = c" using assms(1) by (induction c) auto
  ultimately have r: "map int (runs p) = c" by simp
  then have "length (runs p) = length c" by (metis length_map)
  then have "\<exists>gaps. length gaps = length c + 1 \<and> (\<forall>i. 0 < i \<and> i < length c \<longrightarrow> 0 < gaps ! i) \<and>
                 p = layout gaps c"
    using runs_layout [OF line_possibilities_cells [OF assms(3)] refl] r by simp
  then show ?thesis
    using r line_possibilities_length [OF assms(3)] line_possibilities_cells [OF assms(3)]
    by simp
qed

lemma lp_5_12: "line_possibilities 5 [1, 2] = [[1, 0, 1, 1, 0], [1, 0, 0, 1, 1], [0, 1, 0, 1, 1]]"
  by code_simp

theorem possibilities_match_clues_witness:
  "list_all (\<lambda>k. 0 < k) [1, 2 :: int] \<and> sum_list [1, 2] + int (length [1, 2 :: int]) - 1 \<le> int 5 \<and>
   [1, 0, 0, 1, 1] \<in> set (line_possibilities 5 [1, 2]) \<and>
   length [1, 0, 0, 1, 1 :: int] = 5 \<and> set [1, 0, 0, 1, 1 :: int] \<subseteq> {0, 1} \<and>
   map int (runs [1, 0, 0, 1, 1]) = [1, 2] \<and> [1, 0, 0, 1, 1] = layout [0, 2, 0] [1, 2]"
proof -
  have a: "\<forall>k\<in>set [1, 2 :: int]. 0 < k" by simp
  have b: "sum_list [1, 2] + int (length [1, 2 :: int]) - 1 \<le> int 5" by simp
  have c: "[1, 0, 0, 1, 1] \<in> set (line_possibilities 5 [1, 2])" by (simp add: lp_5_12)
  have d: "[1, 0, 0, 1, 1] = layout [0, 2, 0] [1, 2]" by code_simp
  from possibilities_match_clues [OF a b c] b c d show ?thesis by simp
qed

text \<open>
  C3 as stated fails for a clue 0: the line (0) is a possibility of the clue sequence (0)
  for length 1, and it has no run of 1s.
\<close>

theorem zero_clue_counterexample:
  "sum_list [0] + int (length [0 :: int]) - 1 \<le> int 1 \<and>
   [0] \<in> set (line_possibilities 1 [0]) \<and> map int (runs [0]) \<noteq> [0]"
  by code_simp

text \<open>
  C7, amended: for every length L and every clue sequence c of positive integers, the
  elements of line_possibilities(L, c) are pairwise distinct.
\<close>

theorem possibilities_distinct:
  "\<forall>k\<in>set c. 0 < k \<Longrightarrow> distinct (line_possibilities L c)"
  by (rule line_possibilities_distinct)

theorem possibilities_distinct_witness:
  "list_all (\<lambda>k. 0 < k) [1, 2 :: int] \<and> distinct (line_possibilities 5 [1, 2])"
  using possibilities_distinct [of "[1, 2]" 5] by simp

text \<open>
  C7 as stated fails for a clue 0: line_possibilities(1, (0,)) holds the line (0) twice.
\<close>

theorem zero_clue_duplicates_counterexample:
  "line_possibilities 1 [0] = [[0], [0]] \<and> \<not> distinct (line_possibilities 1 [0])"
  by code_simp

section \<open>Properties of the search\<close>

declare backtrack.simps [simp del] try_candidates.simps [simp del]

lemma is_consistent_nodes:
  "is_consistent_with_partial_row (s\<lparr>nodes := n\<rparr>) = is_consistent_with_partial_row s"
  by (intro ext) (simp add: is_consistent_with_partial_row_def)

lemma backtrack_unfold:
  "backtrack clock time_limit idx (s, t) =
     (case timed_out clock time_limit s t of
        None \<Rightarrow> None
      | Some (True, t') \<Rightarrow> Some (False, s, t')
      | Some (False, t') \<Rightarrow>
          if idx = length (row_order s) then Some (True, s, t')
          else if length (row_order s) < idx then None
          else try_candidates clock time_limit idx (row_order s ! idx)
                 (filter (is_consistent_with_partial_row s (row_order s ! idx))
                         (row_poss s ! (row_order s ! idx)))
                 (s\<lparr>nodes := Suc (nodes s)\<rparr>, t'))"
  by (simp add: backtrack.simps Let_def is_consistent_nodes try_candidates.simps(1)
           split: option.splits bool.splits prod.splits)

lemma try_candidates_nil:
  "try_candidates clock time_limit idx r [] (s, t) = Some (False, s, t)"
  by (simp add: try_candidates.simps)

lemma try_candidates_cons:
  "try_candidates clock time_limit idx r (candidate # rest) (s, t) =
     (if columns_ok (apply_candidate s r candidate)
      then (case backtrack clock time_limit (Suc idx) (apply_candidate s r candidate, t) of
              None \<Rightarrow> None
            | Some (True, s2, t2) \<Rightarrow> Some (True, s2, t2)
            | Some (False, s2, t2) \<Rightarrow>
                try_candidates clock time_limit idx r rest (undo_row s2 r (board s ! r), t2))
      else try_candidates clock time_limit idx r rest
             (undo_row (apply_candidate s r candidate) r (board s ! r), t))"
  by (simp add: try_candidates.simps Let_def)

text \<open>
  Induction over the search, for a fixed clock and time limit: a property \<open>P\<close> of
  \<open>backtrack\<close> and a property \<open>Q\<close> of its loop over the candidates.
\<close>

lemma search_induct [case_names backtrack nil cons]:
  fixes P :: "nat \<Rightarrow> solver \<Rightarrow> nat \<Rightarrow> bool"
    and Q :: "nat \<Rightarrow> nat \<Rightarrow> line list \<Rightarrow> solver \<Rightarrow> nat \<Rightarrow> bool"
  assumes bt: "\<And>idx s t.
      (\<And>t'. timed_out clock time_limit s t = Some (False, t') \<Longrightarrow> idx < length (row_order s) \<Longrightarrow>
         Q idx (row_order s ! idx)
           (filter (is_consistent_with_partial_row s (row_order s ! idx))
                   (row_poss s ! (row_order s ! idx)))
           (s\<lparr>nodes := Suc (nodes s)\<rparr>) t') \<Longrightarrow> P idx s t"
    and nil: "\<And>idx r s t. Q idx r [] s t"
    and cons: "\<And>idx r candidate rest s t.
      (columns_ok (apply_candidate s r candidate) \<Longrightarrow> P (Suc idx) (apply_candidate s r candidate) t) \<Longrightarrow>
      (\<And>s2 t2. columns_ok (apply_candidate s r candidate) \<Longrightarrow>
         backtrack clock time_limit (Suc idx) (apply_candidate s r candidate, t) = Some (False, s2, t2) \<Longrightarrow>
         Q idx r rest (undo_row s2 r (board s ! r)) t2) \<Longrightarrow>
      (\<not> columns_ok (apply_candidate s r candidate) \<Longrightarrow>
         Q idx r rest (undo_row (apply_candidate s r candidate) r (board s ! r)) t) \<Longrightarrow>
      Q idx r (candidate # rest) s t"
  shows "P idx s t" and "Q idx r cands s t"
proof -
  have "(clock' = clock \<longrightarrow> tl' = time_limit \<longrightarrow> P idx (fst st) (snd st))"
    and "(clock' = clock \<longrightarrow> tl' = time_limit \<longrightarrow> Q idx r cands (fst st) (snd st))"
    for clock' tl' st
  proof (induction clock' tl' idx st and clock' tl' idx r cands st
         rule: backtrack_try_candidates.induct)
    case (1 clock' tl' idx s t)
    note IH = "1.IH" [OF _ refl refl _ _ refl refl refl, simplified is_consistent_nodes, simplified]
    show ?case
    proof (intro impI)
      assume eq: "clock' = clock" "tl' = time_limit"
      show "P idx (fst (s, t)) (snd (s, t))"
        unfolding fst_conv snd_conv
      proof (rule bt)
        fix t'
        assume to: "timed_out clock time_limit s t = Some (False, t')"
          and idx: "idx < length (row_order s)"
        let ?cs = "filter (is_consistent_with_partial_row s (row_order s ! idx))
                          (row_poss s ! (row_order s ! idx))"
        show "Q idx (row_order s ! idx) ?cs (s\<lparr>nodes := Suc (nodes s)\<rparr>) t'"
        proof (cases "?cs = []")
          case True
          then show ?thesis by (simp add: nil)
        next
          case False
          from IH [OF to [folded eq] _ _ False] idx eq show ?thesis by simp
        qed
      qed
    qed
  next
    case (2 clock' tl' idx r s t)
    show ?case by (simp add: nil)
  next
    case (3 clock' tl' idx r candidate rest s t)
    note IH1 = "3.IH"(1) [OF refl refl]
    note IH2 = "3.IH"(2) [OF refl refl _ _ refl _ refl]
    note IH3 = "3.IH"(3) [OF refl refl]
    show ?case
    proof (intro impI)
      assume eq: "clock' = clock" "tl' = time_limit"
      show "Q idx r (candidate # rest) (fst (s, t)) (snd (s, t))"
        unfolding fst_conv snd_conv
      proof (rule cons)
        assume "columns_ok (apply_candidate s r candidate)"
        from IH1 [OF this] eq show "P (Suc idx) (apply_candidate s r candidate) t" by simp
      next
        fix s2 t2
        assume "columns_ok (apply_candidate s r candidate)"
          "backtrack clock time_limit (Suc idx) (apply_candidate s r candidate, t) = Some (False, s2, t2)"
        then show "Q idx r rest (undo_row s2 r (board s ! r)) t2"
          using IH2 [of False s2 t2] eq by simp
      next
        assume "\<not> columns_ok (apply_candidate s r candidate)"
        from IH3 [OF this] eq
        show "Q idx r rest (undo_row (apply_candidate s r candidate) r (board s ! r)) t" by simp
      qed
    qed
  qed
  from this [of clock time_limit "(s, t)"]
  show "P idx s t" and "Q idx r cands s t" by simp_all
qed

lemma same_puzzle_refl: "same_puzzle s s"
  by (simp add: same_puzzle_def)

lemma same_puzzle_trans: "same_puzzle s s' \<Longrightarrow> same_puzzle s' s'' \<Longrightarrow> same_puzzle s s''"
  by (simp add: same_puzzle_def)

lemma same_puzzle_apply: "same_puzzle s (apply_candidate s r p)"
  by (simp add: same_puzzle_def apply_candidate_def)

lemma same_puzzle_undo: "same_puzzle s (undo_row s r old)"
  by (simp add: same_puzzle_def undo_row_def)

lemma same_puzzle_nodes: "same_puzzle s (s\<lparr>nodes := n\<rparr>)"
  by (simp add: same_puzzle_def)

lemma timed_out_puzzle:
  "same_puzzle s s' \<Longrightarrow> timed_out clock time_limit s' t = timed_out clock time_limit s t"
  by (simp add: timed_out_def same_puzzle_def split: option.splits)

lemma search_same_puzzle:
  "\<forall>b s' t'. backtrack clock time_limit idx (s, t) = Some (b, s', t') \<longrightarrow> same_puzzle s s'"
  "\<forall>b s' t'. try_candidates clock time_limit idx r cands (s, t) = Some (b, s', t')
      \<longrightarrow> same_puzzle s s'"
proof (induction idx s t and idx r cands s t rule: search_induct [where clock = clock and time_limit = time_limit])
  case (backtrack idx s t)
  show ?case
  proof (intro allI impI)
    fix b s' t'
    assume res: "backtrack clock time_limit idx (s, t) = Some (b, s', t')"
    show "same_puzzle s s'"
    proof (cases "timed_out clock time_limit s t")
      case None
      with res show ?thesis by (simp add: backtrack_unfold)
    next
      case (Some a)
      obtain x y where a: "a = (x, y)" by (cases a)
      show ?thesis
      proof (cases x)
        case True
        with res Some a show ?thesis by (simp add: backtrack_unfold same_puzzle_refl)
      next
        case False
        then have to: "timed_out clock time_limit s t = Some (False, y)" using Some a by simp
        show ?thesis
        proof (cases "idx < length (row_order s)")
          case False
          with res to show ?thesis
            by (auto simp: backtrack_unfold same_puzzle_refl split: if_splits)
        next
          case True
          with res to have "try_candidates clock time_limit idx (row_order s ! idx)
                 (filter (is_consistent_with_partial_row s (row_order s ! idx))
                         (row_poss s ! (row_order s ! idx)))
                 (s\<lparr>nodes := Suc (nodes s)\<rparr>, y) = Some (b, s', t')"
            by (simp add: backtrack_unfold)
          with backtrack [OF to True] have "same_puzzle (s\<lparr>nodes := Suc (nodes s)\<rparr>) s'"
            by blast
          then show ?thesis using same_puzzle_trans [OF same_puzzle_nodes] by blast
        qed
      qed
    qed
  qed
next
  case (nil idx r s t)
  show ?case by (simp add: try_candidates_nil same_puzzle_refl)
next
  case (cons idx r candidate rest s t)
  let ?s1 = "apply_candidate s r candidate"
  show ?case
  proof (intro allI impI)
    fix b s' t'
    assume res: "try_candidates clock time_limit idx r (candidate # rest) (s, t) = Some (b, s', t')"
    show "same_puzzle s s'"
    proof (cases "columns_ok ?s1")
      case False
      with res have "try_candidates clock time_limit idx r rest
          (undo_row ?s1 r (board s ! r), t) = Some (b, s', t')"
        by (simp add: try_candidates_cons)
      with cons(3) [OF False] have "same_puzzle (undo_row ?s1 r (board s ! r)) s'" by blast
      then show ?thesis
        using same_puzzle_trans [OF same_puzzle_trans [OF same_puzzle_apply same_puzzle_undo]]
        by blast
    next
      case True
      show ?thesis
      proof (cases "backtrack clock time_limit (Suc idx) (?s1, t)")
        case None
        with res True show ?thesis by (simp add: try_candidates_cons)
      next
        case (Some a)
        obtain x s2 t2 where a: "a = (x, s2, t2)" by (cases a)
        have s2: "same_puzzle ?s1 s2" using cons(1) [OF True] Some a by blast
        show ?thesis
        proof (cases x)
          case True
          with res \<open>columns_ok ?s1\<close> Some a have "s' = s2" by (simp add: try_candidates_cons)
          then show ?thesis using same_puzzle_trans [OF same_puzzle_apply s2] by simp
        next
          case False
          then have bt: "backtrack clock time_limit (Suc idx) (?s1, t) = Some (False, s2, t2)"
            using Some a by simp
          with res \<open>columns_ok ?s1\<close> have "try_candidates clock time_limit idx r rest
              (undo_row s2 r (board s ! r), t2) = Some (b, s', t')"
            by (simp add: try_candidates_cons)
          with cons(2) [OF True bt] have "same_puzzle (undo_row s2 r (board s ! r)) s'" by blast
          then show ?thesis
            using same_puzzle_trans [OF same_puzzle_apply
                    same_puzzle_trans [OF s2 same_puzzle_trans [OF same_puzzle_undo]]]
            by blast
        qed
      qed
    qed
  qed
qed

lemma wf_same_puzzle: "same_puzzle s s' \<Longrightarrow> wf_solver s \<Longrightarrow> wf_solver s'"
  by (simp add: wf_solver_def same_puzzle_def)

lemma nth_map_upt_take: "n \<le> length xs \<Longrightarrow> map (\<lambda>c. xs ! c) [0 ..< n] = take n xs"
  by (simp add: list_eq_iff_nth_eq)

lemma board_apply:
  "board (apply_candidate s r p) =
     (board s)[r := map (\<lambda>c. Some (p ! c)) [0 ..< C s] @ drop (C s) (board s ! r)]"
  by (simp add: apply_candidate_def)

lemma length_row_update:
  assumes "length (b ! ra) = n" "r < length b \<Longrightarrow> length v = n"
  shows "length (b[r := v] ! ra) = n"
proof (cases "r < length b")
  case True
  then show ?thesis using assms by (cases "r = ra") simp_all
next
  case False
  then have "length b \<le> r" by simp
  then have "b[r := v] = b" by (rule list_update_beyond)
  then show ?thesis using assms(1) by simp
qed

lemma shaped_apply: "shaped s \<Longrightarrow> shaped (apply_candidate s r p)"
proof -
  assume sh: "shaped s"
  let ?v = "map (\<lambda>c. Some (p ! c)) [0 ..< C s] @ drop (C s) (board s ! r)"
  have "length ((board s)[r := ?v] ! ra) = C s" if "ra < R s" for ra
  proof (rule length_row_update)
    show "length (board s ! ra) = C s" using sh that by (simp add: shaped_def)
    show "length ?v = C s" if "r < length (board s)"
      using sh that by (simp add: shaped_def)
  qed
  then show ?thesis using sh by (simp add: shaped_def apply_candidate_def)
qed

lemma shaped_undo: "shaped s \<Longrightarrow> shaped (undo_row s r old)"
proof -
  assume sh: "shaped s"
  let ?v = "map (\<lambda>c. old ! c) [0 ..< C s] @ drop (C s) (board s ! r)"
  have "length ((board s)[r := ?v] ! ra) = C s" if "ra < R s" for ra
  proof (rule length_row_update)
    show "length (board s ! ra) = C s" using sh that by (simp add: shaped_def)
    show "length ?v = C s" if "r < length (board s)"
      using sh that by (simp add: shaped_def)
  qed
  then show ?thesis using sh by (simp add: shaped_def undo_row_def)
qed

lemma shaped_cong: "same_puzzle s s' \<Longrightarrow> board s' = board s \<Longrightarrow> shaped s \<Longrightarrow> shaped s'"
  by (simp add: shaped_def same_puzzle_def)

lemma shaped_nodes: "shaped (s\<lparr>nodes := n\<rparr>) = shaped s"
  by (simp add: shaped_def)

lemma board_nodes: "board (s\<lparr>nodes := n\<rparr>) = board s"
  by simp

text \<open>
  Writing \<open>old_row\<close> back over a candidate gives the board before the candidate.
\<close>

lemma undo_restores:
  assumes "shaped s" "same_puzzle s s2" "board s2 = board (apply_candidate s r p)"
  shows "board (undo_row s2 r (board s ! r)) = board s"
proof (cases "r < length (board s)")
  case False
  then have "length (board s) \<le> r" by simp
  then have beyond: "(board s)[r := v] = board s" for v by (rule list_update_beyond)
  have "board s2 = board s" using assms(3) beyond by (simp add: apply_candidate_def)
  then show ?thesis using beyond by (simp add: undo_row_def)
next
  case True
  then have len: "length (board s ! r) = C s" using assms(1) by (simp add: shaped_def)
  have C2: "C s2 = C s" using assms(2) by (simp add: same_puzzle_def)
  have old: "map (\<lambda>c. (board s ! r) ! c) [0 ..< C s] = board s ! r"
    using nth_map_upt_take [of "C s" "board s ! r"] len by simp
  let ?v = "map (\<lambda>c. Some (p ! c)) [0 ..< C s] @ drop (C s) (board s ! r)"
  have b2: "board s2 = (board s)[r := ?v]" using assms(3) by (simp add: apply_candidate_def)
  have "drop (C s) ?v = []" using len by simp
  then have "map (\<lambda>c. (board s ! r) ! c) [0 ..< C s] @ drop (C s) (board s2 ! r) = board s ! r"
    using old b2 True by simp
  then have "board (undo_row s2 r (board s ! r)) = (board s2)[r := board s ! r]"
    using C2 by (simp add: undo_row_def)
  also have "\<dots> = board s" using b2 by (simp add: list_update_id)
  finally show ?thesis .
qed

text \<open>
  A search that returns False leaves the board as it found it.
\<close>

lemma search_restores:
  "shaped s \<longrightarrow> (\<forall>s' t'. backtrack clock time_limit idx (s, t) = Some (False, s', t')
      \<longrightarrow> board s' = board s)"
  "shaped s \<longrightarrow> (\<forall>s' t'. try_candidates clock time_limit idx r cands (s, t) = Some (False, s', t')
      \<longrightarrow> board s' = board s)"
proof (induction idx s t and idx r cands s t rule: search_induct [where clock = clock and time_limit = time_limit])
  case (backtrack idx s t)
  show ?case
  proof (intro allI impI)
    fix s' t'
    assume sh: "shaped s"
      and res: "backtrack clock time_limit idx (s, t) = Some (False, s', t')"
    show "board s' = board s"
    proof (cases "timed_out clock time_limit s t")
      case None
      with res show ?thesis by (simp add: backtrack_unfold)
    next
      case (Some a)
      obtain x y where a: "a = (x, y)" by (cases a)
      show ?thesis
      proof (cases x)
        case True
        with res Some a show ?thesis by (simp add: backtrack_unfold)
      next
        case False
        then have to: "timed_out clock time_limit s t = Some (False, y)" using Some a by simp
        show ?thesis
        proof (cases "idx < length (row_order s)")
          case False
          with res to show ?thesis
            by (auto simp: backtrack_unfold split: if_splits)
        next
          case True
          with res to have "try_candidates clock time_limit idx (row_order s ! idx)
                 (filter (is_consistent_with_partial_row s (row_order s ! idx))
                         (row_poss s ! (row_order s ! idx)))
                 (s\<lparr>nodes := Suc (nodes s)\<rparr>, y) = Some (False, s', t')"
            by (simp add: backtrack_unfold)
          moreover have "shaped (s\<lparr>nodes := Suc (nodes s)\<rparr>)" using sh by (simp add: shaped_nodes)
          ultimately have "board s' = board (s\<lparr>nodes := Suc (nodes s)\<rparr>)"
            using backtrack [OF to True] by blast
          then show ?thesis by simp
        qed
      qed
    qed
  qed
next
  case (nil idx r s t)
  show ?case by (simp add: try_candidates_nil)
next
  case (cons idx r candidate rest s t)
  let ?s1 = "apply_candidate s r candidate"
  show ?case
  proof (intro allI impI)
    fix s' t'
    assume sh: "shaped s"
      and res: "try_candidates clock time_limit idx r (candidate # rest) (s, t) = Some (False, s', t')"
    have sh1: "shaped ?s1" using sh by (rule shaped_apply)
    show "board s' = board s"
    proof (cases "columns_ok ?s1")
      case False
      with res have r: "try_candidates clock time_limit idx r rest
          (undo_row ?s1 r (board s ! r), t) = Some (False, s', t')"
        by (simp add: try_candidates_cons)
      from cons(3) [OF False] r shaped_undo [OF sh1]
      have "board s' = board (undo_row ?s1 r (board s ! r))" by blast
      also have "\<dots> = board s"
        using undo_restores [OF sh same_puzzle_apply refl] .
      finally show ?thesis .
    next
      case True
      show ?thesis
      proof (cases "backtrack clock time_limit (Suc idx) (?s1, t)")
        case None
        with res True show ?thesis by (simp add: try_candidates_cons)
      next
        case (Some a)
        obtain x s2 t2 where a: "a = (x, s2, t2)" by (cases a)
        show ?thesis
        proof (cases x)
          case True
          with res \<open>columns_ok ?s1\<close> Some a show ?thesis by (simp add: try_candidates_cons)
        next
          case False
          then have bt: "backtrack clock time_limit (Suc idx) (?s1, t) = Some (False, s2, t2)"
            using Some a by simp
          with res \<open>columns_ok ?s1\<close> have r: "try_candidates clock time_limit idx r rest
              (undo_row s2 r (board s ! r), t2) = Some (False, s', t')"
            by (simp add: try_candidates_cons)
          have b2: "board s2 = board ?s1" using cons(1) [OF True] sh1 bt by blast
          have p2: "same_puzzle s s2"
            using same_puzzle_trans [OF same_puzzle_apply] search_same_puzzle(1) bt by blast
          have "same_puzzle ?s1 s2" using search_same_puzzle(1) bt by blast
          then have "shaped s2" using b2 sh1 by (rule shaped_cong)
          then have "shaped (undo_row s2 r (board s ! r))" by (rule shaped_undo)
          with cons(2) [OF True bt] r have "board s' = board (undo_row s2 r (board s ! r))"
            by blast
          also have "\<dots> = board s"
            using undo_restores [OF sh p2 b2] .
          finally show ?thesis .
        qed
      qed
    qed
  qed
qed

lemma solved_from_cong:
  "same_puzzle s x \<Longrightarrow> board x = board s \<Longrightarrow> solved_from idx x s' \<Longrightarrow> solved_from idx s s'"
  by (simp add: solved_from_def same_puzzle_def)

lemma backtrack_at_end:
  "idx = length (row_order s) \<Longrightarrow> backtrack clock time_limit idx (s, t) = Some (True, s', t')
     \<Longrightarrow> s' = s"
  by (auto simp: backtrack_unfold split: option.splits bool.splits)

lemma wf_apply: "wf_solver s \<Longrightarrow> wf_solver (apply_candidate s r p)"
  using wf_same_puzzle [OF same_puzzle_apply] .

lemma wf_undo: "wf_solver s \<Longrightarrow> wf_solver (undo_row s r p)"
  using wf_same_puzzle [OF same_puzzle_undo] .

lemma wf_nodes: "wf_solver s \<Longrightarrow> wf_solver (s\<lparr>nodes := n\<rparr>)"
  using wf_same_puzzle [OF same_puzzle_nodes] .

lemma row_after_apply:
  assumes "shaped s" "r < R s" "length p = C s"
  shows "board (apply_candidate s r p) ! r = map Some p"
proof -
  have "length (board s ! r) = C s" "r < length (board s)"
    using assms by (simp_all add: shaped_def)
  moreover have "map (\<lambda>c. Some (p ! c)) [0 ..< C s] = map Some p"
    using assms(3) by (simp add: list_eq_iff_nth_eq)
  ultimately show ?thesis by (simp add: apply_candidate_def)
qed

lemma other_row_after_apply:
  "r' \<noteq> r \<Longrightarrow> board (apply_candidate s r p) ! r' = board s ! r'"
  by (simp add: apply_candidate_def)

lemma nth_not_in_drop:
  assumes "distinct xs" "idx < length xs"
  shows "xs ! idx \<notin> set (drop (Suc idx) xs)"
proof
  assume "xs ! idx \<in> set (drop (Suc idx) xs)"
  then obtain k where k: "k < length (drop (Suc idx) xs)" "drop (Suc idx) xs ! k = xs ! idx"
    by (auto simp: in_set_conv_nth)
  then have "xs ! (Suc idx + k) = xs ! idx" "Suc idx + k < length xs" by auto
  with assms show False by (auto simp: nth_eq_iff_index_eq)
qed

lemma set_drop_Suc:
  "idx < length xs \<Longrightarrow> set (drop idx xs) = insert (xs ! idx) (set (drop (Suc idx) xs))"
  by (simp add: Cons_nth_drop_Suc [symmetric])

lemma solved_from_step:
  assumes wf: "wf_solver s" and sh: "shaped s" and idx: "idx < length (row_order s)"
    and p: "p \<in> set (row_poss s ! (row_order s ! idx))"
    and ok: "columns_ok (apply_candidate s (row_order s ! idx) p)"
    and nxt: "solved_from (Suc idx) (apply_candidate s (row_order s ! idx) p) s2"
    and last: "Suc idx = length (row_order s) \<Longrightarrow> s2 = apply_candidate s (row_order s ! idx) p"
  shows "solved_from idx s s2"
proof -
  let ?r = "row_order s ! idx"
  let ?s1 = "apply_candidate s ?r p"
  have ro: "row_order ?s1 = row_order s" "row_poss ?s1 = row_poss s"
    by (simp_all add: apply_candidate_def)
  have rR: "?r < R s" using wf idx by (auto simp: wf_solver_def dest: nth_mem)
  have lp: "length p = C s" using wf rR p by (simp add: wf_solver_def)
  have notin: "?r \<notin> set (drop (Suc idx) (row_order s))"
    using wf idx by (simp add: wf_solver_def nth_not_in_drop)
  have "same_puzzle ?s1 s2" using nxt by (simp add: solved_from_def)
  then have sp: "same_puzzle s s2" by (rule same_puzzle_trans [OF same_puzzle_apply])
  have row: "board s2 ! ?r = map Some p"
    using nxt notin row_after_apply [OF sh rR lp] by (simp add: solved_from_def ro)
  have rows: "\<exists>q\<in>set (row_poss s ! (row_order s ! j)). board s2 ! (row_order s ! j) = map Some q"
    if "idx \<le> j" "j < length (row_order s)" for j
  proof (cases "j = idx")
    case True
    then show ?thesis using row p by blast
  next
    case False
    then have "Suc idx \<le> j" using that by simp
    then show ?thesis using nxt that(2) by (simp add: solved_from_def ro)
  qed
  have frame: "board s2 ! r' = board s ! r'" if "r' \<notin> set (drop idx (row_order s))" for r'
  proof -
    from that have "r' \<noteq> ?r" "r' \<notin> set (drop (Suc idx) (row_order s))"
      using set_drop_Suc [OF idx] by auto
    then show ?thesis
      using nxt other_row_after_apply [of r' ?r s p] by (simp add: solved_from_def ro)
  qed
  have cols: "columns_ok s2"
  proof (cases "Suc idx = length (row_order s)")
    case True
    then show ?thesis using last ok by simp
  next
    case False
    then have "Suc idx < length (row_order s)" using idx by simp
    then show ?thesis using nxt by (simp add: solved_from_def ro)
  qed
  show ?thesis
    using sp rows frame cols nxt by (simp add: solved_from_def)
qed

text \<open>
  A search that returns True has written a possibility into every row from \<open>idx\<close> on, has
  left the other rows alone, and (when it wrote a row) every column passes the column check.
\<close>

lemma search_sound:
  "wf_solver s \<and> shaped s \<longrightarrow>
     (\<forall>s' t'. backtrack clock time_limit idx (s, t) = Some (True, s', t') \<longrightarrow> solved_from idx s s')"
  "wf_solver s \<and> shaped s \<and> idx < length (row_order s) \<and> r = row_order s ! idx \<and>
     set cands \<subseteq> set (row_poss s ! r) \<longrightarrow>
     (\<forall>s' t'. try_candidates clock time_limit idx r cands (s, t) = Some (True, s', t')
        \<longrightarrow> solved_from idx s s')"
proof (induction idx s t and idx r cands s t rule: search_induct [where clock = clock and time_limit = time_limit])
  case (backtrack idx s t)
  show ?case
  proof (intro allI impI, elim conjE)
    fix s' t'
    assume wf: "wf_solver s" and sh: "shaped s"
      and res: "backtrack clock time_limit idx (s, t) = Some (True, s', t')"
    show "solved_from idx s s'"
    proof (cases "timed_out clock time_limit s t")
      case None
      with res show ?thesis by (simp add: backtrack_unfold)
    next
      case (Some a)
      obtain x y where a: "a = (x, y)" by (cases a)
      show ?thesis
      proof (cases x)
        case True
        with res Some a show ?thesis by (simp add: backtrack_unfold)
      next
        case False
        then have to: "timed_out clock time_limit s t = Some (False, y)" using Some a by simp
        show ?thesis
        proof (cases "idx < length (row_order s)")
          case False
          with res to have "s' = s" "idx = length (row_order s)"
            by (auto simp: backtrack_unfold split: if_splits)
          then show ?thesis using sh by (auto simp: solved_from_def same_puzzle_refl)
        next
          case True
          let ?n = "s\<lparr>nodes := Suc (nodes s)\<rparr>"
          let ?cs = "filter (is_consistent_with_partial_row s (row_order s ! idx))
                         (row_poss s ! (row_order s ! idx))"
          from res to True have "try_candidates clock time_limit idx (row_order s ! idx) ?cs
                 (?n, y) = Some (True, s', t')"
            by (simp add: backtrack_unfold)
          moreover have "wf_solver ?n" "shaped ?n" using wf sh by (simp_all add: wf_nodes shaped_nodes)
          moreover have "idx < length (row_order ?n)" "row_order s ! idx = row_order ?n ! idx"
              "set ?cs \<subseteq> set (row_poss ?n ! (row_order s ! idx))"
            using True by auto
          ultimately have "solved_from idx ?n s'"
            using backtrack [OF to True] by blast
          then show ?thesis
            by (rule solved_from_cong [OF same_puzzle_nodes, rotated]) simp
        qed
      qed
    qed
  qed
next
  case (nil idx r s t)
  show ?case by (simp add: try_candidates_nil)
next
  case (cons idx r candidate rest s t)
  let ?s1 = "apply_candidate s r candidate"
  show ?case
  proof (intro allI impI, elim conjE)
    fix s' t'
    assume wf: "wf_solver s" and sh: "shaped s" and idx: "idx < length (row_order s)"
      and r: "r = row_order s ! idx"
      and sub: "set (candidate # rest) \<subseteq> set (row_poss s ! r)"
      and res: "try_candidates clock time_limit idx r (candidate # rest) (s, t) = Some (True, s', t')"
    have sh1: "shaped ?s1" using sh by (rule shaped_apply)
    have wf1: "wf_solver ?s1" using wf by (rule wf_apply)
    have via_rest: "solved_from idx s s'"
      if x: "same_puzzle s x" "board x = board s" "shaped x"
        and IH: "wf_solver x \<and> shaped x \<and> idx < length (row_order x) \<and> r = row_order x ! idx \<and>
           set rest \<subseteq> set (row_poss x ! r) \<longrightarrow>
           (\<forall>s' t'. try_candidates clock time_limit idx r rest (x, t2) = Some (True, s', t')
              \<longrightarrow> solved_from idx x s')"
        and rr: "try_candidates clock time_limit idx r rest (x, t2) = Some (True, s', t')"
      for x t2
    proof -
      have "wf_solver x" using wf_same_puzzle [OF x(1) wf] .
      moreover have "idx < length (row_order x)" "r = row_order x ! idx"
          "set rest \<subseteq> set (row_poss x ! r)"
        using x(1) idx r sub by (simp_all add: same_puzzle_def)
      ultimately have "solved_from idx x s'" using IH rr x(3) by blast
      then show ?thesis using solved_from_cong [OF x(1) x(2)] by blast
    qed
    show "solved_from idx s s'"
    proof (cases "columns_ok ?s1")
      case False
      with res have rr: "try_candidates clock time_limit idx r rest
          (undo_row ?s1 r (board s ! r), t) = Some (True, s', t')"
        by (simp add: try_candidates_cons)
      show ?thesis
      proof (rule via_rest [OF _ _ _ cons(3) [OF False] rr])
        show "same_puzzle s (undo_row ?s1 r (board s ! r))"
          using same_puzzle_trans [OF same_puzzle_apply same_puzzle_undo] .
        show "board (undo_row ?s1 r (board s ! r)) = board s"
          using undo_restores [OF sh same_puzzle_apply refl] .
        show "shaped (undo_row ?s1 r (board s ! r))" using sh1 by (rule shaped_undo)
      qed
    next
      case True
      show ?thesis
      proof (cases "backtrack clock time_limit (Suc idx) (?s1, t)")
        case None
        with res True show ?thesis by (simp add: try_candidates_cons)
      next
        case (Some a)
        obtain x s2 t2 where a: "a = (x, s2, t2)" by (cases a)
        show ?thesis
        proof (cases x)
          case True
          then have bt: "backtrack clock time_limit (Suc idx) (?s1, t) = Some (True, s2, t2)"
            using Some a by simp
          with res \<open>columns_ok ?s1\<close> have "s' = s2" by (simp add: try_candidates_cons)
          moreover have "solved_from (Suc idx) ?s1 s2"
            using cons(1) [OF \<open>columns_ok ?s1\<close>] wf1 sh1 bt by blast
          moreover have "s2 = ?s1" if "Suc idx = length (row_order s)"
            using backtrack_at_end [OF _ bt] that by (simp add: apply_candidate_def)
          ultimately show ?thesis
            using solved_from_step [OF wf sh idx, of candidate s2] sub \<open>columns_ok ?s1\<close> r
            by simp
        next
          case False
          then have bt: "backtrack clock time_limit (Suc idx) (?s1, t) = Some (False, s2, t2)"
            using Some a by simp
          with res \<open>columns_ok ?s1\<close> have rr: "try_candidates clock time_limit idx r rest
              (undo_row s2 r (board s ! r), t2) = Some (True, s', t')"
            by (simp add: try_candidates_cons)
          have b2: "board s2 = board ?s1" using search_restores(1) sh1 bt by blast
          have p12: "same_puzzle ?s1 s2" using search_same_puzzle(1) bt by blast
          have p2: "same_puzzle s s2" using same_puzzle_trans [OF same_puzzle_apply p12] .
          have sh2: "shaped s2" using p12 b2 sh1 by (rule shaped_cong)
          show ?thesis
          proof (rule via_rest [OF _ _ _ cons(2) [OF True bt] rr])
            show "same_puzzle s (undo_row s2 r (board s ! r))"
              using same_puzzle_trans [OF p2 same_puzzle_undo] .
            show "board (undo_row s2 r (board s ! r)) = board s"
              using undo_restores [OF sh p2 b2] .
            show "shaped (undo_row s2 r (board s ! r))" using sh2 by (rule shaped_undo)
          qed
        qed
      qed
    qed
  qed
qed

lemma init_fields:
  "R (init rcs ccs) = length rcs" "C (init rcs ccs) = length ccs"
  "row_poss (init rcs ccs) = map (line_possibilities (length ccs)) rcs"
  "col_poss (init rcs ccs) = map (line_possibilities (length rcs)) ccs"
  "board (init rcs ccs) = replicate (length rcs) (replicate (length ccs) None)"
  "set (row_order (init rcs ccs)) = {0 ..< length rcs}"
  "distinct (row_order (init rcs ccs))"
  by (simp_all add: init_def Let_def)

lemma solver_of_fields:
  assumes "solver_of rcs ccs s"
  shows "R s = length rcs" "C s = length ccs"
    "row_poss s = map (line_possibilities (length ccs)) rcs"
    "col_poss s = map (line_possibilities (length rcs)) ccs"
    "set (row_order s) = {0 ..< length rcs}" "distinct (row_order s)"
    "length (board s) = length rcs" "\<forall>row\<in>set (board s). length row = length ccs"
proof -
  from assms have eq: "s = (init rcs ccs)\<lparr>board := board s, start_time := start_time s,
      nodes := nodes s\<rparr>" by (simp add: solver_of_def)
  show "R s = length rcs" using arg_cong [OF eq, of R] by (simp add: init_fields)
  show "C s = length ccs" using arg_cong [OF eq, of C] by (simp add: init_fields)
  show "row_poss s = map (line_possibilities (length ccs)) rcs"
    using arg_cong [OF eq, of row_poss] by (simp add: init_fields)
  show "col_poss s = map (line_possibilities (length rcs)) ccs"
    using arg_cong [OF eq, of col_poss] by (simp add: init_fields)
  show "set (row_order s) = {0 ..< length rcs}"
    using arg_cong [OF eq, of row_order] by (simp add: init_fields)
  show "distinct (row_order s)"
    using arg_cong [OF eq, of row_order] by (simp add: init_fields)
  show "length (board s) = length rcs" "\<forall>row\<in>set (board s). length row = length ccs"
    using assms by (simp_all add: solver_of_def list_all_iff)
qed

lemma solver_of_init: "solver_of rcs ccs (init rcs ccs)"
  by (simp add: solver_of_def init_def Let_def list_all_iff)

lemma solver_of_entry:
  assumes "solver_of rcs ccs s"
  shows "solver_of rcs ccs (s\<lparr>start_time := a, nodes := n\<rparr>)"
proof -
  from assms have eq: "s = (init rcs ccs)\<lparr>board := board s, start_time := start_time s,
      nodes := nodes s\<rparr>" by (simp add: solver_of_def)
  have "s\<lparr>start_time := a, nodes := n\<rparr>
          = (init rcs ccs)\<lparr>board := board s, start_time := a, nodes := n\<rparr>"
    using arg_cong [OF eq, of "\<lambda>x. x\<lparr>start_time := a, nodes := n\<rparr>"] by simp
  then show ?thesis using assms by (simp add: solver_of_def)
qed

text \<open>
  In a solver the constructor built, every possibility of a row has \<open>C\<close> cells, every
  possibility of a column has \<open>R\<close> cells, and \<open>row_order\<close> is a permutation of the rows: the
  indices the search uses are within range.
\<close>

lemma solver_of_wf: "solver_of rcs ccs s \<Longrightarrow> wf_solver s"
  by (simp add: wf_solver_def solver_of_fields line_possibilities_length)

lemma solver_of_shaped: "solver_of rcs ccs s \<Longrightarrow> shaped s"
  by (simp add: shaped_def solver_of_fields)

lemma solve_unfold:
  "solve clock time_limit allow_partial (s, t) =
     (if \<not> allow_partial \<and> ([] \<in> set (row_poss s) \<or> [] \<in> set (col_poss s))
      then Some (False, s\<lparr>start_time := Some (clock t), nodes := 0\<rparr>, Suc t)
      else backtrack clock time_limit 0 (s\<lparr>start_time := Some (clock t), nodes := 0\<rparr>, Suc t))"
  by (auto simp: solve_def Let_def list_ex_iff)

lemma same_puzzle_entry:
  "R s' = R s \<and> C s' = C s \<and> row_poss s' = row_poss s \<and> col_poss s' = col_poss s \<and>
   row_order s' = row_order s \<and> board s' = board s"
  if "s' = s\<lparr>start_time := a, nodes := n\<rparr>"
  using that by simp

lemma wf_entry: "wf_solver s \<Longrightarrow> wf_solver (s\<lparr>start_time := a, nodes := n\<rparr>)"
  by (simp add: wf_solver_def)

lemma shaped_entry: "shaped s \<Longrightarrow> shaped (s\<lparr>start_time := a, nodes := n\<rparr>)"
  by (simp add: shaped_def)

text \<open>
  C10: whenever solve returns False, by the static check of the strict mode, by exhausting
  the candidates or after a timeout, the board is cell for cell the board at entry to the
  call. The solver is one the constructor built; its board at entry is any board of R rows
  of C cells.
\<close>

theorem solve_false_restores:
  "solver_of rcs ccs s \<Longrightarrow> solve clock time_limit allow_partial (s, t) = Some (False, s', t')
     \<Longrightarrow> board s' = board s"
proof -
  assume s: "solver_of rcs ccs s"
    and res: "solve clock time_limit allow_partial (s, t) = Some (False, s', t')"
  let ?e = "s\<lparr>start_time := Some (clock t), nodes := 0\<rparr>"
  have sh: "shaped s" using s by (rule solver_of_shaped)
  show ?thesis
  proof (cases "\<not> allow_partial \<and> ([] \<in> set (row_poss s) \<or> [] \<in> set (col_poss s))")
    case True
    with res have "s' = ?e" by (simp add: solve_unfold)
    then show ?thesis by simp
  next
    case False
    with res have "backtrack clock time_limit 0 (?e, Suc t) = Some (False, s', t')"
      by (simp add: solve_unfold)
    then have "board s' = board ?e"
      using search_restores(1) shaped_entry [OF sh] by blast
    then show ?thesis by simp
  qed
qed

text \<open>
  A search cut short by the time limit: the clock advances by one at each reading and the
  limit is 2; solve returns False after two nodes and leaves the board unknown, as it was.
\<close>

theorem solve_false_restores_witness:
  "solver_of [[1], [1]] [[1], [1]] (init [[1], [1]] [[1], [1]]) \<and>
   solve tick_clock (Some 2) True (init [[1], [1]] [[1], [1]], 0)
     = Some (False, (init [[1], [1]] [[1], [1]])\<lparr>start_time := Some 0, nodes := 2\<rparr>, 5) \<and>
   board ((init [[1], [1]] [[1], [1]])\<lparr>start_time := Some 0, nodes := 2\<rparr>)
     = board (init [[1], [1]] [[1], [1]])"
proof -
  have a: "solver_of [[1], [1]] [[1], [1]] (init [[1], [1]] [[1], [1]])" by (rule solver_of_init)
  have b: "solve tick_clock (Some 2) True (init [[1], [1]] [[1], [1]], 0)
     = Some (False, (init [[1], [1]] [[1], [1]])\<lparr>start_time := Some 0, nodes := 2\<rparr>, 5)"
    by code_simp
  from solve_false_restores [OF a b] a b show ?thesis by simp
qed

text \<open>
  C6: when solve is called with allow_partial=False and the possibility list of some row
  or of some column is empty, solve returns False at once, in the state it entered with the
  start time set and the node counter reset, and the node counter is zero.
\<close>

theorem strict_mode_fast_fail:
  "[] \<in> set (row_poss s) \<or> [] \<in> set (col_poss s) \<Longrightarrow>
   solve clock time_limit False (s, t)
     = Some (False, s\<lparr>start_time := Some (clock t), nodes := 0\<rparr>, Suc t) \<and>
   nodes (s\<lparr>start_time := Some (clock t), nodes := 0\<rparr>) = 0"
  by (simp add: solve_unfold)

text \<open>
  A puzzle whose first row has the clue 5 in a line of length 3.
\<close>

theorem strict_mode_fast_fail_witness:
  "[] \<in> set (row_poss (init [[5], [1], [1]] [[1], [1], [1]])) \<and>
   solve still_clock None False (init [[5], [1], [1]] [[1], [1], [1]], 0)
     = Some (False, (init [[5], [1], [1]] [[1], [1], [1]])\<lparr>start_time := Some 0, nodes := 0\<rparr>, 1) \<and>
   nodes ((init [[5], [1], [1]] [[1], [1], [1]])\<lparr>start_time := Some 0, nodes := 0\<rparr>) = 0"
proof -
  have a: "[] \<in> set (row_poss (init [[5], [1], [1]] [[1], [1], [1]]))" by code_simp
  then have "[] \<in> set (row_poss (init [[5], [1], [1]] [[1], [1], [1]])) \<or>
             [] \<in> set (col_poss (init [[5], [1], [1]] [[1], [1], [1]]))" by simp
  from strict_mode_fast_fail [OF this, of still_clock None 0] a show ?thesis
    by (simp add: still_clock_def)
qed

lemma columns_okD:
  "columns_ok s \<Longrightarrow> c < C s \<Longrightarrow>
   \<exists>p\<in>set (col_poss s ! c). col_candidate_compatible_with_partial_col s c p"
  by (simp add: columns_ok_def list_all_iff list_ex_iff)

lemma full_column:
  assumes len: "length b = n" "length p = n"
    and rows: "\<forall>r<n. \<exists>q. length q = m \<and> b ! r = map Some q"
    and c: "c < m"
    and compat: "list_all (\<lambda>rr. case b ! rr ! c of None \<Rightarrow> True | Some v \<Rightarrow> v = p ! rr) [0 ..< n]"
  shows "column b c = map Some p"
proof (rule nth_equalityI)
  show "length (column b c) = length (map Some p)" using len by (simp add: column_def)
next
  fix i assume "i < length (column b c)"
  then have i: "i < n" using len by (simp add: column_def)
  then obtain q where q: "length q = m" "b ! i = map Some q" using rows by blast
  have "b ! i ! c = Some (q ! c)" using q c by simp
  moreover have "case b ! i ! c of None \<Rightarrow> True | Some v \<Rightarrow> v = p ! i"
    using compat i by (simp add: list_all_iff)
  ultimately have "b ! i ! c = Some (p ! i)" by simp
  then show "column b c ! i = map Some p ! i" using i len by (simp add: column_def)
qed

text \<open>
  What the search does guarantee: whenever solve returns True, every cell of the board is
  0 or 1 and every row of the board is an element of the possibility list of that row; and
  when the puzzle has at least one row, or solve was called with allow_partial=False, every
  column of the board is an element of the possibility list of that column.
\<close>

theorem solve_sound:
  assumes s: "solver_of rcs ccs s"
    and res: "solve clock time_limit allow_partial (s, t) = Some (True, s', t')"
  shows "(\<forall>r<R s'. \<forall>c<C s'. board s' ! r ! c = Some 0 \<or> board s' ! r ! c = Some 1) \<and>
         (\<forall>r<R s'. board s' ! r \<in> set (map (map Some) (row_poss s' ! r))) \<and>
         (rcs \<noteq> [] \<or> \<not> allow_partial \<longrightarrow>
            (\<forall>c<C s'. column (board s') c \<in> set (map (map Some) (col_poss s' ! c))))"
proof -
  let ?e = "s\<lparr>start_time := Some (clock t), nodes := 0\<rparr>"
  have e: "solver_of rcs ccs ?e" using s by (rule solver_of_entry)
  note f = solver_of_fields [OF e]
  have nofail: "\<not> (\<not> allow_partial \<and> ([] \<in> set (row_poss s) \<or> [] \<in> set (col_poss s)))"
    using res by (auto simp: solve_unfold)
  then have bt: "backtrack clock time_limit 0 (?e, Suc t) = Some (True, s', t')"
    using res by (auto simp: solve_unfold split: if_splits)
  have sf: "solved_from 0 ?e s'"
    using search_sound(1) solver_of_wf [OF e] solver_of_shaped [OF e] bt by blast
  then have sp: "same_puzzle ?e s'" and sh': "shaped s'" by (simp_all add: solved_from_def)
  have R': "R s' = length rcs" and C': "C s' = length ccs"
    and rp': "row_poss s' = map (line_possibilities (length ccs)) rcs"
    and cp': "col_poss s' = map (line_possibilities (length rcs)) ccs"
    using sp f by (simp_all add: same_puzzle_def)
  have lenb: "length (board s') = length rcs" using sh' R' by (simp add: shaped_def)
  have rows: "\<exists>p\<in>set (row_poss s' ! r). board s' ! r = map Some p" if "r < length rcs" for r
  proof -
    from that have "r \<in> set (row_order ?e)" using f(5) by simp
    then obtain j where "j < length (row_order ?e)" "row_order ?e ! j = r"
      by (auto simp: in_set_conv_nth)
    then show ?thesis using sf sp by (auto simp: solved_from_def same_puzzle_def)
  qed
  have rowq: "\<exists>q. length q = length ccs \<and> set q \<subseteq> {0, 1} \<and> board s' ! r = map Some q"
    if "r < length rcs" for r
  proof -
    from rows [OF that] obtain p where p: "p \<in> set (row_poss s' ! r)" "board s' ! r = map Some p"
      by blast
    then have "p \<in> set (line_possibilities (length ccs) (rcs ! r))" using rp' that by simp
    then show ?thesis using p(2) line_possibilities_length line_possibilities_cells by blast
  qed
  have cells: "\<forall>r<R s'. \<forall>c<C s'. board s' ! r ! c = Some 0 \<or> board s' ! r ! c = Some 1"
  proof (intro allI impI)
    fix r c assume "r < R s'" "c < C s'"
    then obtain q where q: "length q = length ccs" "set q \<subseteq> {0, 1}" "board s' ! r = map Some q"
      using rowq R' by auto
    have "q ! c \<in> set q" using q(1) \<open>c < C s'\<close> C' by simp
    then have "q ! c = 0 \<or> q ! c = 1" using q(2) by auto
    moreover have "board s' ! r ! c = Some (q ! c)" using q \<open>c < C s'\<close> C' by simp
    ultimately show "board s' ! r ! c = Some 0 \<or> board s' ! r ! c = Some 1" by simp
  qed
  have rowsin: "\<forall>r<R s'. board s' ! r \<in> set (map (map Some) (row_poss s' ! r))"
    using rows R' by auto
  have cols: "\<forall>c<C s'. column (board s') c \<in> set (map (map Some) (col_poss s' ! c))"
    if "rcs \<noteq> [] \<or> \<not> allow_partial"
  proof (intro allI impI)
    fix c assume c: "c < C s'"
    show "column (board s') c \<in> set (map (map Some) (col_poss s' ! c))"
    proof (cases "rcs = []")
      case False
      then have "0 < length (row_order ?e)" using f(5) by (cases "row_order ?e") auto
      then have "columns_ok s'" using sf by (simp add: solved_from_def)
      then obtain p where p: "p \<in> set (col_poss s' ! c)"
          "col_candidate_compatible_with_partial_col s' c p"
        using columns_okD [OF _ c] by blast
      have "length p = length rcs"
        using p(1) cp' c C' line_possibilities_length by auto
      moreover have "\<forall>r<length rcs. \<exists>q. length q = length ccs \<and> board s' ! r = map Some q"
        using rowq by blast
      ultimately have "column (board s') c = map Some p"
        using full_column [OF lenb _ _ _ p(2) [unfolded col_candidate_compatible_with_partial_col_def R']]
          c C' by simp
      then show ?thesis using p(1) by auto
    next
      case True
      with that have "\<not> allow_partial" by simp
      with nofail have "[] \<notin> set (col_poss s)" by simp
      then have "col_poss s' ! c \<noteq> []"
        using c C' cp' solver_of_fields(4) [OF s] by (metis length_map nth_mem)
      then obtain p where p: "p \<in> set (col_poss s' ! c)" by (cases "col_poss s' ! c") auto
      then have "length p = 0" using cp' c C' True line_possibilities_length by auto
      then have "column (board s') c = map Some p"
        using lenb True by (simp add: column_def)
      then show ?thesis using p by auto
    qed
  qed
  show ?thesis using cells rowsin cols by blast
qed

text \<open>
  The spec's Example 1: rows [[1]], columns [[1]].
\<close>

theorem solve_sound_witness:
  "solver_of [[1]] [[1]] (init [[1]] [[1]]) \<and>
   solve still_clock None True (init [[1]] [[1]], 0)
     = Some (True, (init [[1]] [[1]])\<lparr>board := [[Some 1]], start_time := Some 0, nodes := 1\<rparr>, 1) \<and>
   board ((init [[1]] [[1]])\<lparr>board := [[Some 1]], start_time := Some 0, nodes := 1\<rparr>) ! 0 ! 0 = Some 1 \<and>
   column [[Some (1::int)]] 0 \<in> set (map (map Some) (col_poss (init [[1]] [[1]]) ! 0))"
proof -
  have a: "solver_of [[1]] [[1]] (init [[1]] [[1]])" by (rule solver_of_init)
  have b: "solve still_clock None True (init [[1]] [[1]], 0)
     = Some (True, (init [[1]] [[1]])\<lparr>board := [[Some 1]], start_time := Some 0, nodes := 1\<rparr>, 1)"
    by code_simp
  from solve_sound [OF a b] a b show ?thesis
    by (simp add: init_fields)
qed

lemma solution_cong: "same_puzzle s x \<Longrightarrow> solution g s \<Longrightarrow> solution g x"
  by (simp add: solution_def same_puzzle_def)

lemma agrees_cong: "same_puzzle s x \<Longrightarrow> board x = board s \<Longrightarrow> agrees g idx s \<Longrightarrow> agrees g idx x"
  by (simp add: agrees_def same_puzzle_def)

lemma timed_out_None: "timed_out clock None s t = Some (False, t)"
  by (simp add: timed_out_def)

text \<open>
  Without a time limit the search raises nothing: it returns True or False.
\<close>

lemma search_returns:
  "idx \<le> length (row_order s) \<longrightarrow> backtrack clock None idx (s, t) \<noteq> None"
  "idx < length (row_order s) \<longrightarrow> try_candidates clock None idx r cands (s, t) \<noteq> None"
proof (induction idx s t and idx r cands s t rule: search_induct [where clock = clock and time_limit = None])
  case (backtrack idx s t)
  show ?case
  proof
    assume le: "idx \<le> length (row_order s)"
    show "backtrack clock None idx (s, t) \<noteq> None"
    proof (cases "idx = length (row_order s)")
      case True
      then show ?thesis by (simp add: backtrack_unfold timed_out_None)
    next
      case False
      then have lt: "idx < length (row_order s)" using le by simp
      from backtrack [OF timed_out_None lt] lt show ?thesis
        by (simp add: backtrack_unfold timed_out_None)
    qed
  qed
next
  case (nil idx r s t)
  show ?case by (simp add: try_candidates_nil)
next
  case (cons idx r candidate rest s t)
  let ?s1 = "apply_candidate s r candidate"
  show ?case
  proof
    assume lt: "idx < length (row_order s)"
    show "try_candidates clock None idx r (candidate # rest) (s, t) \<noteq> None"
    proof (cases "columns_ok ?s1")
      case False
      from cons(3) [OF False] lt show ?thesis
        using False by (simp add: try_candidates_cons row_order_undo_row row_order_apply_candidate)
    next
      case True
      from cons(1) [OF True] lt
      obtain x s2 t2 where bt: "backtrack clock None (Suc idx) (?s1, t) = Some (x, s2, t2)"
        by (auto simp: row_order_apply_candidate)
      show ?thesis
      proof (cases x)
        case True
        with bt \<open>columns_ok ?s1\<close> show ?thesis by (simp add: try_candidates_cons)
      next
        case False
        then have bt': "backtrack clock None (Suc idx) (?s1, t) = Some (False, s2, t2)"
          using bt by simp
        have "row_order s2 = row_order s"
          using search_same_puzzle(1) bt' by (fastforce simp: same_puzzle_def row_order_apply_candidate)
        with cons(2) [OF True bt'] lt bt' True show ?thesis
          by (simp add: try_candidates_cons row_order_undo_row)
      qed
    qed
  qed
qed

lemma consistent_unknown_row:
  "board s ! r = replicate (C s) None \<Longrightarrow> is_consistent_with_partial_row s r p"
  by (simp add: is_consistent_with_partial_row_def list_all_iff)

lemma agrees_columns_ok:
  assumes wf: "wf_solver s" and sol: "solution g s" and ag: "agrees g idx s"
  shows "columns_ok s"
proof -
  have "list_ex (col_candidate_compatible_with_partial_col s c) (col_poss s ! c)" if c: "c < C s" for c
  proof -
    have mem: "column g c \<in> set (col_poss s ! c)" using sol c by (simp add: solution_def)
    have "case board s ! rr ! c of None \<Rightarrow> True | Some b \<Rightarrow> b = column g c ! rr" if rr: "rr < R s" for rr
    proof -
      from rr have "rr \<in> set (row_order s)" using wf by (simp add: wf_solver_def)
      then obtain j where j: "j < length (row_order s)" "row_order s ! j = rr"
        by (auto simp: in_set_conv_nth)
      have lg: "length (g ! rr) = C s" using wf sol rr by (simp add: wf_solver_def solution_def)
      have cg: "column g c ! rr = g ! rr ! c" using sol rr by (simp add: column_def solution_def)
      show ?thesis
      proof (cases "j < idx")
        case True
        then have "board s ! rr = map Some (g ! rr)" using ag j by (auto simp: agrees_def)
        then show ?thesis using c lg cg by simp
      next
        case False
        then have "board s ! rr = replicate (C s) None" using ag j by (auto simp: agrees_def)
        then show ?thesis using c by simp
      qed
    qed
    then have "col_candidate_compatible_with_partial_col s c (column g c)"
      by (simp add: col_candidate_compatible_with_partial_col_def list_all_iff)
    with mem show ?thesis by (auto simp: list_ex_iff)
  qed
  then show ?thesis by (simp add: columns_ok_def list_all_iff)
qed

lemma agrees_step:
  assumes wf: "wf_solver s" and sh: "shaped s" and sol: "solution g s" and ag: "agrees g idx s"
    and idx: "idx < length (row_order s)"
  shows "agrees g (Suc idx) (apply_candidate s (row_order s ! idx) (g ! (row_order s ! idx)))"
proof -
  let ?r = "row_order s ! idx"
  let ?s1 = "apply_candidate s ?r (g ! ?r)"
  have rR: "?r < R s" using wf idx by (auto simp: wf_solver_def dest: nth_mem)
  have lg: "length (g ! ?r) = C s" using wf sol rR by (simp add: wf_solver_def solution_def)
  have d: "distinct (row_order s)" using wf by (simp add: wf_solver_def)
  have "board ?s1 ! (row_order s ! j) =
          (if j < Suc idx then map Some (g ! (row_order s ! j)) else replicate (C s) None)"
    if j: "j < length (row_order s)" for j
  proof (cases "j = idx")
    case True
    then show ?thesis using row_after_apply [OF sh rR lg] by simp
  next
    case False
    then have "row_order s ! j \<noteq> ?r" using d j idx by (simp add: nth_eq_iff_index_eq)
    then have "board ?s1 ! (row_order s ! j) = board s ! (row_order s ! j)"
      by (rule other_row_after_apply)
    then show ?thesis using ag j False by (auto simp: agrees_def)
  qed
  then show ?thesis by (simp add: agrees_def apply_candidate_def)
qed

text \<open>
  Completeness of the search without a time limit: from a board that agrees with a
  solution on the rows already assigned and is unknown elsewhere, the search returns True.
\<close>

lemma search_complete:
  "wf_solver s \<and> shaped s \<and> solution g s \<and> agrees g idx s \<and> idx \<le> length (row_order s) \<longrightarrow>
     (\<exists>s' t'. backtrack clock None idx (s, t) = Some (True, s', t'))"
  "wf_solver s \<and> shaped s \<and> solution g s \<and> agrees g idx s \<and> idx < length (row_order s) \<and>
     r = row_order s ! idx \<and> g ! r \<in> set cands \<longrightarrow>
     (\<exists>s' t'. try_candidates clock None idx r cands (s, t) = Some (True, s', t'))"
proof (induction idx s t and idx r cands s t rule: search_induct [where clock = clock and time_limit = None])
  case (backtrack idx s t)
  show ?case
  proof (intro impI, elim conjE)
    assume wf: "wf_solver s" and sh: "shaped s" and sol: "solution g s" and ag: "agrees g idx s"
      and le: "idx \<le> length (row_order s)"
    show "\<exists>s' t'. backtrack clock None idx (s, t) = Some (True, s', t')"
    proof (cases "idx = length (row_order s)")
      case True
      then show ?thesis by (simp add: backtrack_unfold timed_out_None)
    next
      case False
      then have lt: "idx < length (row_order s)" using le by simp
      let ?r = "row_order s ! idx"
      let ?n = "s\<lparr>nodes := Suc (nodes s)\<rparr>"
      let ?cs = "filter (is_consistent_with_partial_row s ?r) (row_poss s ! ?r)"
      have rR: "?r < R s" using wf lt by (auto simp: wf_solver_def dest: nth_mem)
      have "board s ! ?r = replicate (C s) None" using ag lt by (simp add: agrees_def)
      then have "is_consistent_with_partial_row s ?r (g ! ?r)" by (rule consistent_unknown_row)
      moreover have "g ! ?r \<in> set (row_poss s ! ?r)" using sol rR by (simp add: solution_def)
      ultimately have mem: "g ! ?r \<in> set ?cs" by simp
      have "wf_solver ?n" "shaped ?n" "solution g ?n" "agrees g idx ?n"
        using wf sh sol ag
        by (simp_all add: wf_nodes shaped_nodes solution_cong [OF same_puzzle_nodes]
              agrees_cong [OF same_puzzle_nodes])
      moreover have "idx < length (row_order ?n)" "?r = row_order ?n ! idx" using lt by simp_all
      ultimately have "\<exists>s' t'. try_candidates clock None idx ?r ?cs (?n, t) = Some (True, s', t')"
        using backtrack [OF timed_out_None lt] mem by blast
      then show ?thesis using lt by (simp add: backtrack_unfold timed_out_None)
    qed
  qed
next
  case (nil idx r s t)
  show ?case by simp
next
  case (cons idx r candidate rest s t)
  let ?s1 = "apply_candidate s r candidate"
  show ?case
  proof (intro impI, elim conjE)
    assume wf: "wf_solver s" and sh: "shaped s" and sol: "solution g s" and ag: "agrees g idx s"
      and lt: "idx < length (row_order s)" and r: "r = row_order s ! idx"
      and mem: "g ! r \<in> set (candidate # rest)"
    have sh1: "shaped ?s1" using sh by (rule shaped_apply)
    have wf1: "wf_solver ?s1" using wf by (rule wf_apply)
    have sol1: "solution g ?s1" using sol by (rule solution_cong [OF same_puzzle_apply])
    have via_rest: "\<exists>s' t'. try_candidates clock None idx r rest (x, t2) = Some (True, s', t')"
      if x: "same_puzzle s x" "board x = board s"
        and IH: "wf_solver x \<and> shaped x \<and> solution g x \<and> agrees g idx x \<and>
           idx < length (row_order x) \<and> r = row_order x ! idx \<and> g ! r \<in> set rest \<longrightarrow>
           (\<exists>s' t'. try_candidates clock None idx r rest (x, t2) = Some (True, s', t'))"
        and ne: "candidate \<noteq> g ! r"
      for x t2
    proof -
      have "wf_solver x" using wf_same_puzzle [OF x(1) wf] .
      moreover have "shaped x" using shaped_cong [OF x(1) x(2) sh] .
      moreover have "solution g x" using solution_cong [OF x(1) sol] .
      moreover have "agrees g idx x" using agrees_cong [OF x(1) x(2) ag] .
      moreover have "idx < length (row_order x)" "r = row_order x ! idx"
        using x(1) lt r by (simp_all add: same_puzzle_def)
      moreover have "g ! r \<in> set rest" using mem ne by auto
      ultimately show ?thesis using IH by blast
    qed
    show "\<exists>s' t'. try_candidates clock None idx r (candidate # rest) (s, t) = Some (True, s', t')"
    proof (cases "candidate = g ! r")
      case True
      have ag1: "agrees g (Suc idx) ?s1"
        using agrees_step [OF wf sh sol ag lt] True r by simp
      have ok: "columns_ok ?s1" using agrees_columns_ok [OF wf1 sol1 ag1] .
      have "Suc idx \<le> length (row_order ?s1)" using lt by (simp add: row_order_apply_candidate)
      then obtain s2 t2 where "backtrack clock None (Suc idx) (?s1, t) = Some (True, s2, t2)"
        using cons(1) [OF ok] wf1 sh1 sol1 ag1 by blast
      then show ?thesis using ok by (simp add: try_candidates_cons)
    next
      case False
      show ?thesis
      proof (cases "columns_ok ?s1")
        case ok: False
        have "\<exists>s' t'. try_candidates clock None idx r rest
            (undo_row ?s1 r (board s ! r), t) = Some (True, s', t')"
        proof (rule via_rest [OF _ _ cons(3) [OF ok] False])
          show "same_puzzle s (undo_row ?s1 r (board s ! r))"
            using same_puzzle_trans [OF same_puzzle_apply same_puzzle_undo] .
          show "board (undo_row ?s1 r (board s ! r)) = board s"
            using undo_restores [OF sh same_puzzle_apply refl] .
        qed
        then show ?thesis using ok by (simp add: try_candidates_cons)
      next
        case ok: True
        have "Suc idx \<le> length (row_order ?s1)" using lt by (simp add: row_order_apply_candidate)
        then obtain x s2 t2 where bt: "backtrack clock None (Suc idx) (?s1, t) = Some (x, s2, t2)"
          using search_returns(1) [of "Suc idx" ?s1 clock t] by auto
        show ?thesis
        proof (cases x)
          case True
          with bt ok show ?thesis by (simp add: try_candidates_cons)
        next
          case xF: False
          then have bt': "backtrack clock None (Suc idx) (?s1, t) = Some (False, s2, t2)"
            using bt by simp
          have b2: "board s2 = board ?s1" using search_restores(1) sh1 bt' by blast
          have p12: "same_puzzle ?s1 s2" using search_same_puzzle(1) bt' by blast
          have p2: "same_puzzle s s2" using same_puzzle_trans [OF same_puzzle_apply p12] .
          have "\<exists>s' t'. try_candidates clock None idx r rest
              (undo_row s2 r (board s ! r), t2) = Some (True, s', t')"
          proof (rule via_rest [OF _ _ cons(2) [OF ok bt'] False])
            show "same_puzzle s (undo_row s2 r (board s ! r))"
              using same_puzzle_trans [OF p2 same_puzzle_undo] .
            show "board (undo_row s2 r (board s ! r)) = board s"
              using undo_restores [OF sh p2 b2] .
          qed
          then show ?thesis using ok bt' by (simp add: try_candidates_cons)
        qed
      qed
    qed
  qed
qed

text \<open>
  C2: for every pair of row-clue and column-clue lists that some grid satisfies, solve
  called with time_limit=None on a freshly constructed solver returns, and returns True.
\<close>

theorem solve_complete:
  assumes sat: "satisfies_clues g rcs ccs"
  shows "\<exists>s' t'. solve clock None allow_partial (init rcs ccs, t) = Some (True, s', t')"
proof -
  let ?e = "(init rcs ccs)\<lparr>start_time := Some (clock t), nodes := 0\<rparr>"
  have e: "solver_of rcs ccs ?e" using solver_of_init by (rule solver_of_entry)
  note f = solver_of_fields [OF e]
  have wf: "wf_solver ?e" and sh: "shaped ?e"
    using solver_of_wf [OF e] solver_of_shaped [OF e] .
  have lg: "length g = length rcs" using sat by (simp add: satisfies_clues_def)
  have row: "length (g ! r) = length ccs" "set (g ! r) \<subseteq> {0, 1}" if "r < length rcs" for r
  proof -
    have "g ! r \<in> set g" using that lg by simp
    then show "length (g ! r) = length ccs" "set (g ! r) \<subseteq> {0, 1}"
      using sat by (auto simp: satisfies_clues_def list_all_iff)
  qed
  have rowin: "g ! r \<in> set (row_poss ?e ! r)" if r: "r < length rcs" for r
  proof -
    have "map int (runs (g ! r)) = rcs ! r"
      using sat r by (simp add: satisfies_clues_def list_all_iff)
    then have "g ! r \<in> set (line_possibilities (length (g ! r)) (rcs ! r))"
      using line_possibilities_complete row(2) [OF r] by blast
    then show ?thesis using f(3) r row(1) [OF r] by simp
  qed
  have colin: "column g c \<in> set (col_poss ?e ! c)" if c: "c < length ccs" for c
  proof -
    have "map int (runs (column g c)) = ccs ! c"
      using sat c by (simp add: satisfies_clues_def list_all_iff)
    moreover have "set (column g c) \<subseteq> {0, 1}"
    proof
      fix v assume "v \<in> set (column g c)"
      then obtain r where r: "r < length g" "v = g ! r ! c"
        by (auto simp: column_def in_set_conv_nth)
      then have "g ! r ! c \<in> set (g ! r)" using row(1) [of r] lg c by simp
      then show "v \<in> {0, 1}" using row(2) [of r] r lg by auto
    qed
    ultimately have "column g c \<in> set (line_possibilities (length (column g c)) (ccs ! c))"
      using line_possibilities_complete by blast
    moreover have "length (column g c) = length rcs" using lg by (simp add: column_def)
    ultimately show ?thesis using f(4) c by simp
  qed
  have sol: "solution g ?e" using lg rowin colin f(1,2) by (simp add: solution_def)
  have ag: "agrees g 0 ?e"
  proof -
    have "board ?e ! (row_order ?e ! j) = replicate (C ?e) None" if "j < length (row_order ?e)" for j
    proof -
      have "row_order ?e ! j \<in> set (row_order ?e)" using that by simp
      then have "row_order ?e ! j < length rcs" using f(5) by simp
      then show ?thesis by (simp add: init_fields)
    qed
    then show ?thesis by (simp add: agrees_def)
  qed
  have rne: "[] \<notin> set (row_poss (init rcs ccs))"
  proof
    assume "[] \<in> set (row_poss (init rcs ccs))"
    then obtain r where "r < length rcs" "row_poss (init rcs ccs) ! r = []"
      by (auto simp: in_set_conv_nth init_fields)
    then show False using rowin [of r] by simp
  qed
  have cne: "[] \<notin> set (col_poss (init rcs ccs))"
  proof
    assume "[] \<in> set (col_poss (init rcs ccs))"
    then obtain c where "c < length ccs" "col_poss (init rcs ccs) ! c = []"
      by (auto simp: in_set_conv_nth init_fields)
    then show False using colin [of c] by simp
  qed
  have "\<exists>s' t'. backtrack clock None 0 (?e, Suc t) = Some (True, s', t')"
    using search_complete(1) wf sh sol ag by blast
  then show ?thesis using rne cne by (simp add: solve_unfold)
qed

theorem solve_complete_witness:
  "satisfies_clues [[1, 0], [0, 1]] [[1], [1]] [[1], [1]] \<and>
   (\<exists>s' t'. solve still_clock None True (init [[1], [1]] [[1], [1]], 0) = Some (True, s', t'))"
proof -
  have h: "satisfies_clues [[1, 0], [0, 1]] [[1], [1]] [[1], [1]]"
    by code_simp
  from solve_complete [OF h] h show ?thesis by blast
qed

text \<open>
  C1 fails in the code, for a puzzle without rows. With no row clue, the column clue (1)
  and allow_partial=True, solve returns True with the empty board, although the possibility
  list of the one column is empty, so that the column () of the board is no element of it.
  Called with allow_partial=False on the same puzzle, solve returns False. The columns are
  checked only after a row has been written, which never happens here.
\<close>

theorem zero_rows_false_success:
  "solve still_clock None True (init [] [[1]], 0)
     = Some (True, (init [] [[1]])\<lparr>start_time := Some 0, nodes := 0\<rparr>, 1) \<and>
   R ((init [] [[1]])\<lparr>start_time := Some 0, nodes := 0\<rparr>) = 0 \<and>
   C ((init [] [[1]])\<lparr>start_time := Some 0, nodes := 0\<rparr>) = 1 \<and>
   board ((init [] [[1]])\<lparr>start_time := Some 0, nodes := 0\<rparr>) = [] \<and>
   col_poss ((init [] [[1]])\<lparr>start_time := Some 0, nodes := 0\<rparr>) = [[]] \<and>
   column (board ((init [] [[1]])\<lparr>start_time := Some 0, nodes := 0\<rparr>)) 0
     \<notin> set (map (map Some) (col_poss ((init [] [[1]])\<lparr>start_time := Some 0, nodes := 0\<rparr>) ! 0)) \<and>
   solve still_clock None False (init [] [[1]], 0)
     = Some (False, (init [] [[1]])\<lparr>start_time := Some 0, nodes := 0\<rparr>, 1)"
  by code_simp

text \<open>
  No grid satisfies these clues: a grid without rows has the empty column, whose runs are
  () and not (1).
\<close>

lemma zero_rows_unsatisfiable: "\<not> satisfies_clues g [] [[1]]"
  by (simp add: satisfies_clues_def column_def runs_def)

section \<open>Properties of the parsers\<close>

lemma py_split_on_ne: "py_split_on sep s \<noteq> []"
  by (induction s) (auto split: list.splits)

lemma join_cons_head: "join sep ((c # p) # ps) = c # join sep (p # ps)"
  by (cases ps) auto

lemma join_py_split_on: "join sep (py_split_on sep s) = s"
proof (induction s)
  case Nil
  show ?case by simp
next
  case (Cons c s)
  obtain p ps where p: "py_split_on sep s = p # ps"
    using py_split_on_ne [of sep s] by (cases "py_split_on sep s") auto
  show ?case
  proof (cases "c = sep")
    case True
    then show ?thesis using Cons p by simp
  next
    case False
    then have "py_split_on sep (c # s) = (c # p) # ps" using p by simp
    then show ?thesis using join_cons_head [of sep c p ps] Cons p by simp
  qed
qed

lemma py_split_on_free: "p \<in> set (py_split_on sep s) \<Longrightarrow> sep \<notin> set p"
proof (induction s arbitrary: p)
  case Nil
  then show ?case by simp
next
  case (Cons c s)
  obtain q qs where q: "py_split_on sep s = q # qs"
    using py_split_on_ne [of sep s] by (cases "py_split_on sep s") auto
  show ?case
  proof (cases "c = sep")
    case True
    with Cons show ?thesis by auto
  next
    case False
    with Cons.prems q have "p = c # q \<or> p \<in> set qs" by simp
    then show ?thesis
    proof
      assume "p = c # q"
      moreover have "sep \<notin> set q" using Cons.IH [of q] q by simp
      ultimately show ?thesis using False by simp
    next
      assume "p \<in> set qs"
      then show ?thesis using Cons.IH [of p] q by simp
    qed
  qed
qed

lemma py_split_aux_space:
  "py_space sp \<Longrightarrow> py_split_aux cur (xs @ sp # ys) = py_split_aux cur xs @ py_split_aux [] ys"
  by (induction xs arbitrary: cur) auto

lemma py_split_aux_spaces:
  "\<forall>c\<in>set ws. py_space c \<Longrightarrow> py_split_aux [] (ws @ rest) = py_split_aux [] rest"
  by (induction ws) auto

lemma py_split_aux_word:
  "\<forall>c\<in>set t. \<not> py_space c \<Longrightarrow> py_split_aux cur (t @ rest) = py_split_aux (cur @ t) rest"
  by (induction t arbitrary: cur) auto

lemma py_split_aux_trailing:
  "\<forall>c\<in>set ws. py_space c \<Longrightarrow> py_split_aux cur ws = flush cur"
proof (cases ws)
  case Nil
  then show ?thesis by (simp add: flush_def)
next
  case (Cons w ws')
  assume "\<forall>c\<in>set ws. py_space c"
  then have "py_space w" "\<forall>c\<in>set ws'. py_space c" using Cons by auto
  then show ?thesis
    using Cons py_split_aux_spaces [of ws' "[]"] by (simp add: flush_def)
qed

lemma py_split_padded:
  assumes "\<forall>c\<in>set ws1. py_space c" "\<forall>c\<in>set ws2. py_space c" "\<forall>c\<in>set t. \<not> py_space c"
  shows "py_split (ws1 @ t @ ws2) = flush t"
  using assms
  by (simp add: py_split_def py_split_aux_spaces py_split_aux_word py_split_aux_trailing)

lemma py_strip_decompose:
  "\<exists>ws1 ws2. s = ws1 @ py_strip s @ ws2 \<and> (\<forall>c\<in>set ws1. py_space c) \<and> (\<forall>c\<in>set ws2. py_space c)"
proof -
  let ?d = "dropWhile py_space s"
  have 1: "s = takeWhile py_space s @ ?d" by simp
  have "rev (takeWhile py_space (rev ?d) @ dropWhile py_space (rev ?d)) = rev (rev ?d)"
    by (simp only: takeWhile_dropWhile_id)
  then have "?d = rev (dropWhile py_space (rev ?d)) @ rev (takeWhile py_space (rev ?d))"
    by (simp only: rev_append rev_rev_ident)
  then have "s = takeWhile py_space s @ py_strip s @ rev (takeWhile py_space (rev ?d))"
    using 1 by (simp add: py_strip_def)
  moreover have "\<forall>c\<in>set (takeWhile py_space s). py_space c"
    by (auto dest: set_takeWhileD)
  moreover have "\<forall>c\<in>set (rev (takeWhile py_space (rev ?d))). py_space c"
    by (auto dest: set_takeWhileD)
  ultimately show ?thesis by blast
qed

lemma py_strip_ends:
  assumes "py_strip s \<noteq> []"
  shows "\<not> py_space (hd (py_strip s))" "\<not> py_space (last (py_strip s))"
proof -
  let ?d = "dropWhile py_space s"
  let ?e = "dropWhile py_space (rev ?d)"
  have e: "?e \<noteq> []" using assms by (simp add: py_strip_def)
  have d: "?d \<noteq> []"
  proof
    assume "?d = []"
    then have "?e = []" by (simp only: rev.simps(1) dropWhile.simps(1))
    with e show False by blast
  qed
  have "\<not> py_space (hd ?e)" using e by (rule hd_dropWhile)
  then show "\<not> py_space (last (py_strip s))" using e by (simp add: py_strip_def last_rev)
  have "rev ?d = takeWhile py_space (rev ?d) @ ?e" by simp
  then have "last (rev ?d) = last ?e" using e by (metis last_appendR)
  then have "last ?e = hd ?d" using d by (simp add: last_rev)
  moreover have "\<not> py_space (hd ?d)" using d by (rule hd_dropWhile)
  ultimately show "\<not> py_space (hd (py_strip s))" using e by (simp add: py_strip_def hd_rev)
qed

lemma dropWhile_id: "xs = [] \<or> \<not> P (hd xs) \<Longrightarrow> dropWhile P xs = xs"
  by (cases xs) auto

lemma py_strip_idem: "py_strip (py_strip s) = py_strip s"
proof (cases "py_strip s = []")
  case True
  have "py_strip [] = []" by (simp add: py_strip_def)
  with True show ?thesis by simp
next
  case False
  let ?t = "py_strip s"
  have "dropWhile py_space ?t = ?t"
    using py_strip_ends(1) [OF False] by (simp add: dropWhile_id)
  moreover have "dropWhile py_space (rev ?t) = rev ?t"
    using py_strip_ends(2) [OF False] False by (simp add: dropWhile_id hd_rev)
  ultimately show ?thesis by (simp add: py_strip_def [of ?t])
qed

lemma py_split_part:
  assumes "\<forall>c\<in>set (py_strip q). \<not> py_space c"
  shows "py_split q = flush (py_strip q)"
proof -
  obtain ws1 ws2 where "q = ws1 @ py_strip q @ ws2" "\<forall>c\<in>set ws1. py_space c" "\<forall>c\<in>set ws2. py_space c"
    using py_strip_decompose by blast
  then show ?thesis using py_split_padded [OF _ _ assms, of ws1 ws2] by simp
qed

lemma digit_not_space: "is_digit c \<Longrightarrow> \<not> py_space c"
  by (auto simp: is_digit_def py_space_def)

lemma digits_from_chars:
  "digits_from acc cs = Some n \<Longrightarrow> \<forall>c\<in>set cs. \<not> py_space c"
proof (induction acc cs rule: digits_from.induct)
  case (1 acc)
  then show ?case by simp
next
  case (2 acc c)
  then show ?case by (auto simp: digit_not_space split: if_splits)
next
  case (3 acc c d ds)
  have us: "\<not> py_space CHR ''_''" by (simp add: py_space_def)
  show ?case
  proof (cases "is_digit c")
    case True
    with 3 show ?thesis by (auto simp: digit_not_space)
  next
    case False
    with "3.prems" have c: "c = CHR ''_''" "is_digit d" "digits_from (acc * 10 + digit_val d) ds = Some n"
      by (auto split: if_splits)
    with "3.IH"(2) False show ?thesis using us by (auto simp: digit_not_space)
  qed
qed

lemma parse_digits_chars:
  "parse_digits cs = Some n \<Longrightarrow> \<forall>c\<in>set cs. \<not> py_space c"
  by (cases cs) (auto simp: parse_digits_def digit_not_space dest: digits_from_chars split: if_splits)

text \<open>
  A token that \<open>int\<close> accepts holds no whitespace once stripped.
\<close>

lemma py_int_chars:
  assumes "py_int t = Some n"
  shows "\<forall>c\<in>set (py_strip t). \<not> py_space c"
proof (cases "py_strip t")
  case Nil
  then show ?thesis by simp
next
  case (Cons c cs)
  have signs: "\<not> py_space CHR ''+''" "\<not> py_space CHR ''-''" by (simp_all add: py_space_def)
  show ?thesis
  proof (cases "c = CHR ''+'' \<or> c = CHR ''-''")
    case True
    with assms Cons obtain m where "parse_digits cs = Some m"
      by (auto simp: py_int_def split: if_splits)
    then show ?thesis using Cons True signs parse_digits_chars by auto
  next
    case False
    with assms Cons obtain m where "parse_digits (c # cs) = Some m"
      by (auto simp: py_int_def split: if_splits)
    then show ?thesis using Cons parse_digits_chars by metis
  qed
qed

lemma ints_of_all:
  "ints_of ps = Some ns \<Longrightarrow> \<forall>p\<in>set ps. \<exists>n. py_int p = Some n"
  by (induction ps arbitrary: ns) (auto split: option.splits)

lemma py_replace_free: "old \<notin> set p \<Longrightarrow> py_replace old new p = p"
  by (induction p) (auto simp: py_replace_def)

lemma py_replace_append:
  "py_replace old new (xs @ ys) = py_replace old new xs @ py_replace old new ys"
  by (simp add: py_replace_def)

text \<open>
  Splitting at whitespace after replacing the commas by spaces gives the words of the
  parts between the commas, in order.
\<close>

lemma py_split_replace_join:
  "\<forall>p\<in>set ps. CHR '','' \<notin> set p \<Longrightarrow>
   py_split (py_replace CHR '','' CHR '' '' (join CHR '','' ps)) = concat (map py_split ps)"
proof (induction "CHR '',''" ps rule: join.induct)
  case 1
  show ?case by (simp add: py_split_def py_replace_def)
next
  case (2 p)
  then show ?case by (simp add: py_replace_free)
next
  case (3 p q qs)
  have sp: "py_space CHR '' ''" by (simp add: py_space_def)
  have "py_replace CHR '','' CHR '' '' (join CHR '','' (p # q # qs))
          = p @ CHR '' '' # py_replace CHR '','' CHR '' '' (join CHR '','' (q # qs))"
    using "3.prems" by (simp add: py_replace_append py_replace_free) (simp add: py_replace_def)
  then have "py_split (py_replace CHR '','' CHR '' '' (join CHR '','' (p # q # qs)))
          = py_split p @ py_split (py_replace CHR '','' CHR '' '' (join CHR '','' (q # qs)))"
    using py_split_aux_space [OF sp] by (simp add: py_split_def)
  then show ?case using 3 by simp
qed

lemma concat_flush:
  "concat (map (\<lambda>q. flush (py_strip q)) raw) = map py_strip (filter (\<lambda>q. py_strip q \<noteq> []) raw)"
  by (induction raw) (auto simp: flush_def)

text \<open>
  C8, amended: every string that parse_clue_text accepts is accepted by parse_clue_line,
  with the same integer sequence. (The converse fails: parse_clue_text splits at commas
  only.)
\<close>

theorem text_accepted_line_agrees:
  assumes "parse_clue_text s = Some xs"
  shows "parse_clue_line s = Some xs"
proof (cases "py_strip s = []")
  case True
  with assms show ?thesis by (simp add: parse_clue_text_def parse_clue_line_def)
next
  case False
  let ?t = "py_strip s"
  let ?raw = "py_split_on CHR '','' ?t"
  let ?parts = "map py_strip (filter (\<lambda>p. py_strip p \<noteq> []) ?raw)"
  have io: "ints_of ?parts = Some xs"
    using assms False by (simp add: parse_clue_text_def Let_def)
  have free: "\<forall>c\<in>set (py_strip q). \<not> py_space c" if q: "q \<in> set ?raw" for q
  proof (cases "py_strip q = []")
    case True
    then show ?thesis by simp
  next
    case ne: False
    then have "py_strip q \<in> set ?parts" using q by auto
    then obtain n where "py_int (py_strip q) = Some n" using ints_of_all [OF io] by blast
    then show ?thesis using py_int_chars [of "py_strip q" n] by (simp add: py_strip_idem)
  qed
  have "py_split (py_replace CHR '','' CHR '' '' ?t)
          = py_split (py_replace CHR '','' CHR '' '' (join CHR '','' ?raw))"
    by (simp add: join_py_split_on)
  also have "\<dots> = concat (map py_split ?raw)"
    using py_split_replace_join py_split_on_free by blast
  also have "\<dots> = concat (map (\<lambda>q. flush (py_strip q)) ?raw)"
    using free by (simp add: py_split_part cong: map_cong)
  also have "\<dots> = ?parts" by (rule concat_flush)
  finally have parts: "py_split (py_replace CHR '','' CHR '' '' ?t) = ?parts" .
  have "filter (\<lambda>p. p \<noteq> []) ?parts = ?parts" by (simp add: filter_id_conv)
  then show ?thesis
    using False io parts by (simp add: parse_clue_line_def Let_def)
qed

theorem text_accepted_line_agrees_witness:
  "parse_clue_text '' 1, 2 ,,3'' = Some [1, 2, 3] \<and> parse_clue_line '' 1, 2 ,,3'' = Some [1, 2, 3]"
proof -
  have h: "parse_clue_text '' 1, 2 ,,3'' = Some [1, 2, 3]" by code_simp
  from text_accepted_line_agrees [OF h] h show ?thesis by simp
qed

text \<open>
  C8 as stated fails for tokens separated by whitespace alone: parse_clue_line reads
  "1 2" as [1, 2] and parse_clue_text rejects it.
\<close>

theorem whitespace_tokens_counterexample:
  "parse_clue_line ''1 2'' = Some [1, 2] \<and> parse_clue_text ''1 2'' = None"
  by code_simp

section \<open>Properties of save_level\<close>

text \<open>
  The early returns of \<open>save_level\<close> leave the file alone.
\<close>

lemma save_level_skips:
  "py_strip (name_var g) = [] \<Longrightarrow> save_level g w fs = Inr (Skipped, fs)"
  "collect_clues g = Inl err \<Longrightarrow> save_level g w fs = Inr (Skipped, fs)"
  "collect_clues g = Inr (rows, cols) \<Longrightarrow> rows = [] \<or> cols = [] \<Longrightarrow>
     save_level g w fs = Inr (Skipped, fs)"
  by (auto simp: save_level_def Let_def)

text \<open>
  Past the early returns, \<open>save_level\<close> raises, and writes nothing, when the file cannot be
  read or decoded and when the document is a JSON value other than an object.
\<close>

lemma save_level_raises:
  assumes "py_strip (name_var g) \<noteq> []"
    and "collect_clues g = Inr (rows, cols)" and "rows \<noteq> []" and "cols \<noteq> []"
  shows "save_level g w Unreadable = Inl OSError"
    and "save_level g w Undecodable = Inl UnicodeDecodeError"
    and "\<forall>entries. d \<noteq> JObject entries \<Longrightarrow> save_level g w (Document d) = Inl TypeError"
  using assms
  by (auto simp: save_level_def Let_def load_levels_def set_item_def split: json.splits)

text \<open>
  When writing fails, the file is as it was if it could not be opened, and is no JSON any
  more if it was opened: the levels it held are lost.
\<close>

lemma save_level_write_fails:
  assumes "py_strip (name_var g) \<noteq> []"
    and "collect_clues g = Inr (rows, cols)" and "rows \<noteq> []" and "cols \<noteq> []"
    and "fs = Missing \<or> fs = Invalid \<or> (\<exists>entries. fs = Document (JObject entries))"
  shows "save_level g OpenFails fs = Inr (WriteFailed, fs)"
    and "save_level g DumpFails fs = Inr (WriteFailed, Invalid)"
proof -
  have "load_levels fs = Inr (JObject (entries_of fs))"
    using assms(5) by (auto simp: load_levels_def entries_of_def)
  then show "save_level g OpenFails fs = Inr (WriteFailed, fs)"
    and "save_level g DumpFails fs = Inr (WriteFailed, Invalid)"
    using assms(1-4) by (simp_all add: save_level_def Let_def set_item_def write_levels_def)
qed




end
